theory Spec2Isabelle
  imports Main "HOL-Library.Word"
begin

section \<open>Strings and numbers of the host language\<close>

text \<open>
  A JavaScript string is a sequence of UTF-16 code units.  All the string operations of
  \<^verbatim>\<open>src/App.tsx\<close> that matter here (concatenation, \<^verbatim>\<open>trim\<close>, template literals,
  equality) work on code units, so a string is a list of 16-bit words.
\<close>

type_synonym jsstring = "16 word list"

definition ascii :: "string \<Rightarrow> jsstring" where
  "ascii s = map (\<lambda>c. of_nat (of_char c)) s"

text \<open>
  \<^verbatim>\<open>String.prototype.trim\<close> strips the code points of the WhiteSpace and LineTerminator
  productions of ECMAScript from both ends; all of them lie in the basic plane.
\<close>

definition isWhiteSpace :: "16 word \<Rightarrow> bool" where
  "isWhiteSpace c = (c \<in> {0x9, 0xA, 0xB, 0xC, 0xD, 0x20, 0xA0, 0x1680,
      0x2000, 0x2001, 0x2002, 0x2003, 0x2004, 0x2005, 0x2006, 0x2007, 0x2008, 0x2009, 0x200A,
      0x2028, 0x2029, 0x202F, 0x205F, 0x3000, 0xFEFF})"

definition trim :: "jsstring \<Rightarrow> jsstring" where
  "trim s = rev (dropWhile isWhiteSpace (rev (dropWhile isWhiteSpace s)))"

text \<open>
  \<^verbatim>\<open>Number.prototype.toString\<close> on the integers that occur (time stamps, byte sizes,
  page numbers): plain decimal digits, with a minus sign below zero.
\<close>

fun digits :: "nat \<Rightarrow> jsstring" where
  "digits n = (if n < 10 then [0x30 + of_nat n] else digits (n div 10) @ [0x30 + of_nat (n mod 10)])"

declare digits.simps [simp del]

definition Number_toString :: "int \<Rightarrow> jsstring" where
  "Number_toString x = (if x < 0 then ascii ''-'' @ digits (nat (- x)) else digits (nat x))"

text \<open>
  \<^verbatim>\<open>Array.from(new Set(xs))\<close>: a Set keeps its elements in the order of their first
  insertion, and inserting an element that is already there changes nothing.
\<close>

definition Set_add :: "'a list \<Rightarrow> 'a \<Rightarrow> 'a list" where
  "Set_add acc x = (if x \<in> set acc then acc else acc @ [x])"

definition Array_from_Set :: "'a list \<Rightarrow> 'a list" where
  "Array_from_Set xs = foldl Set_add [] xs"

text \<open>\<^verbatim>\<open>Array.prototype.join\<close> on an array of strings.\<close>

fun Array_join :: "jsstring \<Rightarrow> jsstring list \<Rightarrow> jsstring" where
  "Array_join sep [] = []"
| "Array_join sep [x] = x"
| "Array_join sep (x # y # ys) = x @ sep @ Array_join sep (y # ys)"

section \<open>Data model\<close>

text \<open>
  The browser's \<^verbatim>\<open>File\<close> object, as far as the program reads it.  \<open>handle\<close> stands for
  the object's identity (its bytes): two files may agree on name, time stamp and size
  and still be different objects.
\<close>

record File =
  name :: jsstring
  lastModified :: int
  size_f :: nat
  type_f :: jsstring
  handle :: nat

datatype status = Pending | Processing | Success | Error

record progress =
  current :: nat
  total :: nat

text \<open>\<^verbatim>\<open>interface FileStatus\<close>; the two optional fields are options.\<close>

record FileStatus =
  id_fs :: jsstring
  file_fs :: File
  status :: status
  message :: jsstring
  extractedText :: "jsstring option"
  pageProgress :: "progress option"

datatype BatchState = BatchIdle | BatchProcessing | BatchDone

text \<open>
  The browser's key-value store under the key \<^verbatim>\<open>pdfConverterHistory\<close>.  The stored JSON
  text is represented by the list it encodes; the two flags say whether a write or a
  removal throws (quota exceeded, storage disabled).
\<close>

record storage =
  item :: "jsstring list option"
  setItem_throws :: bool
  removeItem_throws :: bool

text \<open>The component's state (the \<^verbatim>\<open>useState\<close> cells), the store and the error console.\<close>

record app =
  fileQueue :: "FileStatus list"
  batchState :: BatchState
  copiedFileId :: "jsstring option"
  activeAccordion :: "jsstring option"
  history :: "jsstring list"
  localStorage :: storage
  console :: "jsstring list"

definition initial :: "storage \<Rightarrow> app" where
  "initial st = \<lparr>fileQueue = [], batchState = BatchIdle, copiedFileId = None,
     activeAccordion = None, history = [], localStorage = st, console = []\<rparr>"

section \<open>Messages\<close>

definition msg_pending :: jsstring where
  "msg_pending = [0x5DE, 0x5DE, 0x5EA, 0x5D9, 0x5DF, 0x20, 0x5DC, 0x5E2, 0x5D9, 0x5D1, 0x5D5, 0x5D3]"

definition msg_starting :: jsstring where
  "msg_starting = [0x5DE, 0x5EA, 0x5D7, 0x5D9, 0x5DC, 0x20, 0x5E2, 0x5D9, 0x5D1, 0x5D5, 0x5D3,
     0x2E, 0x2E, 0x2E]"

definition msg_page :: "nat \<Rightarrow> nat \<Rightarrow> jsstring" where
  "msg_page i n =
     [0x5DE, 0x5E2, 0x5D1, 0x5D3, 0x20, 0x5E2, 0x5DE, 0x5D5, 0x5D3, 0x20] @ Number_toString (int i) @
     [0x20, 0x5DE, 0x5EA, 0x5D5, 0x5DA, 0x20] @ Number_toString (int n)"

definition msg_completed :: jsstring where
  "msg_completed = [0x5D4, 0x5E2, 0x5D9, 0x5D1, 0x5D5, 0x5D3, 0x20, 0x5D4, 0x5D5, 0x5E9, 0x5DC,
     0x5DD, 0x20, 0x5D1, 0x5D4, 0x5E6, 0x5DC, 0x5D7, 0x5D4]"

definition msg_unexpected :: jsstring where
  "msg_unexpected = [0x5D0, 0x5D9, 0x5E8, 0x5E2, 0x5D4, 0x20, 0x5E9, 0x5D2, 0x5D9, 0x5D0, 0x5D4,
     0x20, 0x5DC, 0x5D0, 0x20, 0x5E6, 0x5E4, 0x5D5, 0x5D9, 0x5D4, 0x2E]"

definition msg_canvas :: jsstring where
  "msg_canvas = [0x5DC, 0x5D0, 0x20, 0x5E0, 0x5D9, 0x5EA, 0x5DF, 0x20, 0x5D4, 0x5D9, 0x5D4, 0x20,
     0x5DC, 0x5D9, 0x5E6, 0x5D5, 0x5E8, 0x20, 0x5E7, 0x5D5, 0x5E0, 0x5D8, 0x5E7, 0x5E1, 0x5D8,
     0x20, 0x5E9, 0x5DC, 0x20, 0x5E7, 0x5E0, 0x5D1, 0x5E1, 0x2E]"

definition msg_gemini :: jsstring where
  "msg_gemini = [0x5E9, 0x5D2, 0x5D9, 0x5D0, 0x5D4, 0x20, 0x5D1, 0x5EA, 0x5E7, 0x5E9, 0x5D5,
     0x5E8, 0x5EA, 0x20, 0x5E2, 0x5DD, 0x20, 0x5D4, 0x2D, 0x41, 0x50, 0x49, 0x20, 0x5E9, 0x5DC,
     0x20, 0x47, 0x65, 0x6D, 0x69, 0x6E, 0x69, 0x2E]"

section \<open>Adding and removing queue entries\<close>

definition newFileStatus :: "File \<Rightarrow> FileStatus" where
  "newFileStatus f =
     \<lparr>id_fs = name f @ ascii ''-'' @ Number_toString (lastModified f) @ ascii ''-'' @
              Number_toString (int (size_f f)),
      file_fs = f, status = Pending, message = msg_pending,
      extractedText = None, pageProgress = None\<rparr>"

definition handleFiles :: "File list option \<Rightarrow> app \<Rightarrow> app" where
  "handleFiles files s =
     (case files of
        None \<Rightarrow> s
      | Some fl \<Rightarrow>
          let newFiles = map newFileStatus (filter (\<lambda>f. type_f f = ascii ''application/pdf'') fl);
              existingIds = set (map id_fs (fileQueue s));
              uniqueNewFiles = filter (\<lambda>f. id_fs f \<notin> existingIds) newFiles
          in s\<lparr>fileQueue := fileQueue s @ uniqueNewFiles, batchState := BatchIdle,
                activeAccordion := None\<rparr>)"

definition removeFile :: "jsstring \<Rightarrow> app \<Rightarrow> app" where
  "removeFile idToRemove s = s\<lparr>fileQueue := filter (\<lambda>item. id_fs item \<noteq> idToRemove) (fileQueue s)\<rparr>"

definition resetState :: "app \<Rightarrow> app" where
  "resetState s = s\<lparr>fileQueue := [], batchState := BatchIdle, copiedFileId := None,
     activeAccordion := None\<rparr>"

section \<open>History store\<close>

definition updateHistory :: "jsstring list \<Rightarrow> app \<Rightarrow> app" where
  "updateHistory newFileNames s =
     (let updatedHistory = Array_from_Set (history s @ newFileNames);
          st = localStorage s
      in if setItem_throws st
         then s\<lparr>history := updatedHistory,
                console := console s @ [ascii ''Failed to save history to localStorage:'']\<rparr>
         else s\<lparr>history := updatedHistory, localStorage := st\<lparr>item := Some updatedHistory\<rparr>\<rparr>)"

text \<open>
  In \<^verbatim>\<open>clearHistory\<close> the call \<^verbatim>\<open>setHistory([])\<close> stands inside the \<^verbatim>\<open>try\<close> block, after
  \<^verbatim>\<open>localStorage.removeItem\<close>: when the removal throws, control goes to the handler and
  the state cell is not written.
\<close>

definition clearHistory :: "app \<Rightarrow> app" where
  "clearHistory s =
     (let st = localStorage s
      in if removeItem_throws st
         then s\<lparr>console := console s @ [ascii ''Failed to clear history from localStorage:'']\<rparr>
         else s\<lparr>localStorage := st\<lparr>item := None\<rparr>, history := []\<rparr>)"

section \<open>Export\<close>

record download =
  filename :: jsstring
  content :: jsstring

text \<open>An optional string inside a template literal: \<^verbatim>\<open>undefined\<close> prints as that word.\<close>

definition template_value :: "jsstring option \<Rightarrow> jsstring" where
  "template_value v = (case v of None \<Rightarrow> ascii ''undefined'' | Some t \<Rightarrow> t)"

definition export_block :: "FileStatus \<Rightarrow> jsstring" where
  "export_block item1 =
     ascii ''========== START: '' @ name (file_fs item1) @ ascii '' =========='' @ [0xA, 0xA] @
     template_value (extractedText item1) @ [0xA, 0xA] @
     ascii ''========== END: '' @ name (file_fs item1) @ ascii '' =========='' "

text \<open>
  \<^verbatim>\<open>handleExportAll\<close> writes no state cell; it returns the blob it offers for download, if
  any, next to the unchanged state.
\<close>

definition handleExportAll :: "app \<Rightarrow> download option \<times> app" where
  "handleExportAll s =
     (let successfulFiles = filter (\<lambda>f. status f = Success) (fileQueue s)
      in if length successfulFiles = 0 then (None, s)
         else (Some \<lparr>filename = ascii ''pdf_extraction_results.txt'',
                      content = Array_join [0xA, 0xA, 0xA] (map export_block successfulFiles)\<rparr>, s))"

section \<open>The external services\<close>

text \<open>
  A value thrown by an awaited call: an \<^verbatim>\<open>Error\<close> object with its message, or anything
  else (\<^verbatim>\<open>error instanceof Error\<close> is false).
\<close>

datatype thrown = ErrorObject jsstring | OtherValue

text \<open>
  What the calls made for one page do: \<^verbatim>\<open>pdf.getPage(i)\<close> may reject, the canvas may give
  no 2d context, \<^verbatim>\<open>page.render\<close> may reject, and \<^verbatim>\<open>ai.models.generateContent\<close> throws or
  answers with \<^verbatim>\<open>response.text\<close> (a string, by the declared type of
  \<^verbatim>\<open>extractTextFromImage\<close>).
\<close>

record page_calls =
  getPage_rejects :: "thrown option"
  context_null :: bool
  render_rejects :: "thrown option"
  generateContent :: "thrown + jsstring"

record pdf_doc =
  numPages :: nat
  page_calls_at :: "nat \<Rightarrow> page_calls"

record file_calls =
  arrayBuffer_rejects :: "thrown option"
  getDocument :: "thrown + pdf_doc"

type_synonym world = "File \<Rightarrow> file_calls"

text \<open>
  What a run of \<^verbatim>\<open>processBatch\<close> does, in order: the state cells it writes and the
  external calls it makes.
\<close>

datatype effect =
    SetFileQueue "FileStatus list"
  | SetBatchState BatchState
  | SetActiveAccordion "jsstring option"
  | CallUpdateHistory "jsstring list"
  | ConsoleError jsstring
  | CallArrayBuffer File
  | CallGetDocument File
  | CallGetPage File nat
  | CallRender File nat
  | CallGenerateContent File nat

section \<open>The batch pipeline\<close>

definition extractTextFromImage ::
  "File \<Rightarrow> nat \<Rightarrow> thrown + jsstring \<Rightarrow> effect list \<times> (thrown + jsstring)" where
  "extractTextFromImage f i api =
     (case api of
        Inl e \<Rightarrow> ([CallGenerateContent f i, ConsoleError (ascii ''Error calling Gemini API:'')],
                  Inl (ErrorObject msg_gemini))
      | Inr text \<Rightarrow> ([CallGenerateContent f i], Inr text))"

text \<open>The awaited calls of one turn of the page loop (lines 157 to 168).\<close>

definition pageBody :: "File \<Rightarrow> nat \<Rightarrow> page_calls \<Rightarrow> effect list \<times> (thrown + jsstring)" where
  "pageBody f i pc =
     (case getPage_rejects pc of
        Some e \<Rightarrow> ([CallGetPage f i], Inl e)
      | None \<Rightarrow>
          if context_null pc then ([CallGetPage f i], Inl (ErrorObject msg_canvas))
          else (case render_rejects pc of
                  Some e \<Rightarrow> ([CallGetPage f i, CallRender f i], Inl e)
                | None \<Rightarrow>
                    (case extractTextFromImage f i (generateContent pc) of
                       (effs, r) \<Rightarrow> ([CallGetPage f i, CallRender f i] @ effs, r))))"

text \<open>\<^verbatim>\<open>processedQueue.map(item => item.id === fileStatus.id ? u(item) : item)\<close>\<close>

definition mapItem :: "jsstring \<Rightarrow> (FileStatus \<Rightarrow> FileStatus) \<Rightarrow> FileStatus list \<Rightarrow> FileStatus list" where
  "mapItem i u processedQueue = map (\<lambda>item1. if id_fs item1 = i then u item1 else item1) processedQueue"

definition page_separator :: jsstring where
  "page_separator = [0xA, 0xA, 0x2D, 0x2D, 0x2D, 0xA, 0xA]"

text \<open>
  The page loop \<^verbatim>\<open>for (let i = 1; i <= numPages; i++)\<close>, as a recursion over the page
  numbers still to do.  It returns the effects, the local \<^verbatim>\<open>processedQueue\<close> and either
  the thrown value or \<^verbatim>\<open>fullText\<close>.
\<close>

fun pageLoop :: "FileStatus \<Rightarrow> pdf_doc \<Rightarrow> nat list \<Rightarrow> FileStatus list \<Rightarrow> jsstring \<Rightarrow>
    effect list \<times> FileStatus list \<times> (thrown + jsstring)" where
  "pageLoop fileStatus pdf [] processedQueue fullText = ([], processedQueue, Inr fullText)"
| "pageLoop fileStatus pdf (i # is) processedQueue fullText =
     (let pq = mapItem (id_fs fileStatus)
                 (\<lambda>item1. item1\<lparr>pageProgress := Some \<lparr>current = i, total = numPages pdf\<rparr>,
                                 message := msg_page i (numPages pdf)\<rparr>) processedQueue
      in case pageBody (file_fs fileStatus) i (page_calls_at pdf i) of
           (effs, Inl e) \<Rightarrow> (SetFileQueue pq # effs, pq, Inl e)
         | (effs, Inr textFromPage) \<Rightarrow>
             (case pageLoop fileStatus pdf is pq (fullText @ trim textFromPage @ page_separator) of
                (effs', pq', r) \<Rightarrow> (SetFileQueue pq # effs @ effs', pq', r)))"

text \<open>The \<^verbatim>\<open>try\<close> block up to the end of the page loop (lines 148 to 170).\<close>

definition tryBlock :: "world \<Rightarrow> FileStatus \<Rightarrow> FileStatus list \<Rightarrow>
    effect list \<times> FileStatus list \<times> (thrown + jsstring)" where
  "tryBlock w fileStatus processedQueue =
     (let f = file_fs fileStatus in
      case arrayBuffer_rejects (w f) of
        Some e \<Rightarrow> ([CallArrayBuffer f], processedQueue, Inl e)
      | None \<Rightarrow>
          (case getDocument (w f) of
             Inl e \<Rightarrow> ([CallArrayBuffer f, CallGetDocument f], processedQueue, Inl e)
           | Inr pdf \<Rightarrow>
               (case pageLoop fileStatus pdf [1 ..< Suc (numPages pdf)] processedQueue [] of
                  (effs, pq, r) \<Rightarrow> ([CallArrayBuffer f, CallGetDocument f] @ effs, pq, r))))"

definition errorMessage :: "thrown \<Rightarrow> jsstring" where
  "errorMessage e = (case e of ErrorObject m \<Rightarrow> m | OtherValue \<Rightarrow> msg_unexpected)"

text \<open>The \<^verbatim>\<open>try\<close>, \<^verbatim>\<open>catch\<close> and \<^verbatim>\<open>finally\<close> of one file (lines 147 to 179).\<close>

definition processFile :: "world \<Rightarrow> FileStatus \<Rightarrow> FileStatus list \<Rightarrow> effect list \<times> FileStatus list" where
  "processFile w fileStatus processedQueue =
     (case tryBlock w fileStatus processedQueue of
        (effs, pq, Inr fullText) \<Rightarrow>
          (let pq' = mapItem (id_fs fileStatus)
                       (\<lambda>item1. item1\<lparr>status := Success, extractedText := Some (trim fullText),
                                       message := msg_completed\<rparr>) pq
           in (effs @ [SetFileQueue pq'], pq'))
      | (effs, pq, Inl e) \<Rightarrow>
          (let pq' = mapItem (id_fs fileStatus)
                       (\<lambda>item1. item1\<lparr>status := Error, message := errorMessage e\<rparr>) pq
           in (effs @ [SetFileQueue pq'], pq')))"

text \<open>
  The loop \<^verbatim>\<open>for (const fileStatus of fileQueue)\<close>: the second argument is what is left of
  the array captured when \<^verbatim>\<open>processBatch\<close> was called, the third the local
  \<^verbatim>\<open>processedQueue\<close>.
\<close>

fun fileLoop :: "world \<Rightarrow> FileStatus list \<Rightarrow> FileStatus list \<Rightarrow> effect list \<times> FileStatus list" where
  "fileLoop w [] processedQueue = ([], processedQueue)"
| "fileLoop w (fileStatus # rest) processedQueue =
     (if status fileStatus \<noteq> Pending then fileLoop w rest processedQueue
      else
        (let pq = mapItem (id_fs fileStatus)
                    (\<lambda>item1. item1\<lparr>status := Processing, message := msg_starting\<rparr>) processedQueue
         in case processFile w fileStatus pq of
              (effs, pq') \<Rightarrow>
                (case fileLoop w rest pq' of
                   (effs', pq'') \<Rightarrow> (SetFileQueue pq # effs @ effs', pq''))))"

definition processBatch :: "world \<Rightarrow> FileStatus list \<Rightarrow> effect list" where
  "processBatch w fileQueue1 =
     (if \<not> list_ex (\<lambda>f. status f = Pending) fileQueue1 then []
      else
        (case fileLoop w fileQueue1 fileQueue1 of
           (effs, processedQueue) \<Rightarrow>
             (let successfulFiles = filter (\<lambda>f. status f = Success) processedQueue
              in [SetBatchState BatchProcessing, SetActiveAccordion None] @ effs @
                 (if length successfulFiles > 0
                  then [CallUpdateHistory (map (\<lambda>f. name (file_fs f)) successfulFiles)]
                  else []) @
                 [SetBatchState BatchDone])))"

text \<open>How an effect changes the state; the external calls change nothing in it.\<close>

fun apply_effect :: "effect \<Rightarrow> app \<Rightarrow> app" where
  "apply_effect (SetFileQueue q) s = s\<lparr>fileQueue := q\<rparr>"
| "apply_effect (SetBatchState b) s = s\<lparr>batchState := b\<rparr>"
| "apply_effect (SetActiveAccordion a) s = s\<lparr>activeAccordion := a\<rparr>"
| "apply_effect (CallUpdateHistory ns) s = updateHistory ns s"
| "apply_effect (ConsoleError m) s = s\<lparr>console := console s @ [m]\<rparr>"
| "apply_effect (CallArrayBuffer f) s = s"
| "apply_effect (CallGetDocument f) s = s"
| "apply_effect (CallGetPage f i) s = s"
| "apply_effect (CallRender f i) s = s"
| "apply_effect (CallGenerateContent f i) s = s"

definition run :: "effect list \<Rightarrow> app \<Rightarrow> app" where
  "run effs s = fold apply_effect effs s"

text \<open>The state once a call of \<^verbatim>\<open>processBatch\<close> made in state \<open>s\<close> has run to its end.\<close>

definition runBatch :: "world \<Rightarrow> app \<Rightarrow> app" where
  "runBatch w s = run (processBatch w (fileQueue s)) s"

text \<open>
  The same run with an add-files command arriving after the first \<open>n\<close> effects: the
  handler works on the state cell as it is then, and the run goes on with the effects it
  still has to do.
\<close>

definition run_interrupted :: "effect list \<Rightarrow> nat \<Rightarrow> File list option \<Rightarrow> app \<Rightarrow> app" where
  "run_interrupted effs n files s = run (drop n effs) (handleFiles files (run (take n effs) s))"

text \<open>
  The start button (lines 288 to 291): \<^verbatim>\<open>onClick={processBatch}\<close> with
  \<^verbatim>\<open>disabled={!hasPendingFiles || batchState === 'processing'}\<close>.  A disabled button
  delivers no click.
\<close>

definition hasPendingFiles :: "app \<Rightarrow> bool" where
  "hasPendingFiles s = list_ex (\<lambda>f. status f = Pending) (fileQueue s)"

definition startButton_disabled :: "app \<Rightarrow> bool" where
  "startButton_disabled s = (\<not> hasPendingFiles s \<or> batchState s = BatchProcessing)"

definition clickStartButton :: "world \<Rightarrow> app \<Rightarrow> effect list" where
  "clickStartButton w s = (if startButton_disabled s then [] else processBatch w (fileQueue s))"

definition startBatch :: "world \<Rightarrow> app \<Rightarrow> app" where
  "startBatch w s = run (clickStartButton w s) s"

section \<open>Sequences of commands\<close>

text \<open>
  The commands the page offers, each with the handler it calls.  A run of
  \<^verbatim>\<open>processBatch\<close> is taken to its end before the next command: while the batch state
  is processing the page shows no control that writes the queue (no drop zone while the
  queue is not empty, no remove and reset buttons, the start button disabled).
\<close>

datatype command =
    AddFiles "File list option"
  | RemoveFile jsstring
  | StartBatch world
  | Reset
  | ClearHistory
  | ExportAll

fun exec :: "command \<Rightarrow> app \<Rightarrow> app" where
  "exec (AddFiles files) s = handleFiles files s"
| "exec (RemoveFile i) s = removeFile i s"
| "exec (StartBatch w) s = startBatch w s"
| "exec Reset s = resetState s"
| "exec ClearHistory s = clearHistory s"
| "exec ExportAll s = snd (handleExportAll s)"

section \<open>Reading the effects of a run\<close>

text \<open>The queues written to the state cell, in order.\<close>

definition queues :: "effect list \<Rightarrow> FileStatus list list" where
  "queues effs = concat (map (\<lambda>e. case e of SetFileQueue q \<Rightarrow> [q] | _ \<Rightarrow> []) effs)"

text \<open>The files whose bytes were asked for, in order.\<close>

definition opened_files :: "effect list \<Rightarrow> File list" where
  "opened_files effs = concat (map (\<lambda>e. case e of CallArrayBuffer f \<Rightarrow> [f] | _ \<Rightarrow> []) effs)"


text \<open>The writes to the cells other than the queue.\<close>

definition cell_writes :: "effect list \<Rightarrow> effect list" where
  "cell_writes effs = filter (\<lambda>e. case e of SetBatchState b \<Rightarrow> True | SetActiveAccordion a \<Rightarrow> True
      | CallUpdateHistory ns \<Rightarrow> True | _ \<Rightarrow> False) effs"

section \<open>What a run amounts to, record by record\<close>

text \<open>
  The result of the page loop read off the external calls alone: the first value thrown,
  or the text collected.
\<close>

fun pagesOutcome :: "File \<Rightarrow> pdf_doc \<Rightarrow> nat list \<Rightarrow> jsstring \<Rightarrow> thrown + jsstring" where
  "pagesOutcome f pdf [] fullText = Inr fullText"
| "pagesOutcome f pdf (i # is) fullText =
     (case snd (pageBody f i (page_calls_at pdf i)) of
        Inl e \<Rightarrow> Inl e
      | Inr t \<Rightarrow> pagesOutcome f pdf is (fullText @ trim t @ page_separator))"

text \<open>The last page whose progress was written, if any.\<close>

fun lastPage :: "File \<Rightarrow> pdf_doc \<Rightarrow> nat list \<Rightarrow> nat option" where
  "lastPage f pdf [] = None"
| "lastPage f pdf (i # is) =
     (case snd (pageBody f i (page_calls_at pdf i)) of
        Inl e \<Rightarrow> Some i
      | Inr t \<Rightarrow> (case lastPage f pdf is of None \<Rightarrow> Some i | Some j \<Rightarrow> Some j))"

definition setProgress :: "nat \<Rightarrow> nat \<Rightarrow> FileStatus \<Rightarrow> FileStatus" where
  "setProgress i n item1 =
     item1\<lparr>pageProgress := Some \<lparr>current = i, total = n\<rparr>, message := msg_page i n\<rparr>"

text \<open>
  What the \<^verbatim>\<open>try\<close> block of a file ends with: the value thrown by the first call that
  fails, or the text collected from all pages.
\<close>

definition fileResult :: "world \<Rightarrow> File \<Rightarrow> thrown + jsstring" where
  "fileResult w f =
     (case arrayBuffer_rejects (w f) of
        Some e \<Rightarrow> Inl e
      | None \<Rightarrow>
          (case getDocument (w f) of
             Inl e \<Rightarrow> Inl e
           | Inr pdf \<Rightarrow> pagesOutcome f pdf [1 ..< Suc (numPages pdf)] []))"

text \<open>The page progress a file leaves in its record, if any.\<close>

definition fileProgress :: "world \<Rightarrow> File \<Rightarrow> progress option" where
  "fileProgress w f =
     (case arrayBuffer_rejects (w f) of
        Some e \<Rightarrow> None
      | None \<Rightarrow>
          (case getDocument (w f) of
             Inl e \<Rightarrow> None
           | Inr pdf \<Rightarrow>
               map_option (\<lambda>j. \<lparr>current = j, total = numPages pdf\<rparr>)
                 (lastPage f pdf [1 ..< Suc (numPages pdf)])))"

text \<open>
  The record \<open>item1\<close> once the file \<open>f\<close> has been processed on it, and a record once its
  own file has been.
\<close>

definition finishAs :: "world \<Rightarrow> File \<Rightarrow> FileStatus \<Rightarrow> FileStatus" where
  "finishAs w f item1 =
     (let item2 = (case fileProgress w f of
                     None \<Rightarrow> item1
                   | Some p \<Rightarrow> item1\<lparr>pageProgress := Some p\<rparr>)
      in case fileResult w f of
           Inr fullText \<Rightarrow> item2\<lparr>status := Success, extractedText := Some (trim fullText),
                                 message := msg_completed\<rparr>
         | Inl e \<Rightarrow> item2\<lparr>status := Error, message := errorMessage e\<rparr>)"

definition finish :: "world \<Rightarrow> FileStatus \<Rightarrow> FileStatus" where
  "finish w item1 = finishAs w (file_fs item1) item1"

text \<open>
  A record that is visited is first marked as started, then carries the progress of one
  page after the other, and ends as \<open>finish\<close> says.
\<close>

definition started :: "FileStatus \<Rightarrow> FileStatus" where
  "started item1 = item1\<lparr>status := Processing, message := msg_starting\<rparr>"

definition stage_of :: "world \<Rightarrow> FileStatus \<Rightarrow> FileStatus \<Rightarrow> bool" where
  "stage_of w x y =
     (y = started x \<or> y = finish w x \<or>
      (\<exists>pdf j. arrayBuffer_rejects (w (file_fs x)) = None \<and> getDocument (w (file_fs x)) = Inr pdf \<and>
         1 \<le> j \<and> j \<le> numPages pdf \<and> y = setProgress j (numPages pdf) (started x)))"

section \<open>Conditions on calls, commands and records\<close>

text \<open>Every call made for a page, and for a file, succeeds.\<close>

definition page_succeeds :: "page_calls \<Rightarrow> bool" where
  "page_succeeds pc =
     (getPage_rejects pc = None \<and> \<not> context_null pc \<and> render_rejects pc = None \<and>
      (case generateContent pc of Inl e \<Rightarrow> False | Inr t \<Rightarrow> True))"

definition all_calls_succeed :: "world \<Rightarrow> File \<Rightarrow> bool" where
  "all_calls_succeed w f =
     (arrayBuffer_rejects (w f) = None \<and>
      (case getDocument (w f) of
         Inl e \<Rightarrow> False
       | Inr pdf \<Rightarrow> list_all (\<lambda>i. page_succeeds (page_calls_at pdf i)) [1 ..< Suc (numPages pdf)]))"

text \<open>A selection event whose PDF files give pairwise different ids.\<close>

definition single_ids :: "command \<Rightarrow> bool" where
  "single_ids c =
     (case c of
        AddFiles (Some fl) \<Rightarrow>
          distinct (map (id_fs \<circ> newFileStatus) (filter (\<lambda>f. type_f f = ascii ''application/pdf'') fl))
      | _ \<Rightarrow> True)"

text \<open>
  The optional fields against the status: a text only in success, a page progress never
  on a pending record.
\<close>

definition fields_ok :: "FileStatus \<Rightarrow> bool" where
  "fields_ok r =
     ((extractedText r \<noteq> None \<longrightarrow> status r = Success) \<and>
      (pageProgress r \<noteq> None \<longrightarrow> status r \<noteq> Pending))"

text \<open>A queue at rest: one record per id, the fields as above, no record processing.\<close>

definition queue_ok :: "FileStatus list \<Rightarrow> bool" where
  "queue_ok q = (distinct (map id_fs q) \<and> (\<forall>r \<in> set q. fields_ok r \<and> status r \<noteq> Processing))"

section \<open>Example data\<close>

definition file_A :: File where
  "file_A = \<lparr>name = ascii ''A.pdf'', lastModified = 1700000000000, size_f = 1234,
     type_f = ascii ''application/pdf'', handle = 0\<rparr>"

text \<open>Another file object with the same name, time stamp and size (a copy in another folder).\<close>

definition file_A_copy :: File where
  "file_A_copy = \<lparr>name = ascii ''A.pdf'', lastModified = 1700000000000, size_f = 1234,
     type_f = ascii ''application/pdf'', handle = 1\<rparr>"

definition file_B :: File where
  "file_B = \<lparr>name = ascii ''B.pdf'', lastModified = 1700000000001, size_f = 99,
     type_f = ascii ''application/pdf'', handle = 2\<rparr>"

definition file_C :: File where
  "file_C = \<lparr>name = ascii ''C.pdf'', lastModified = 1700000000002, size_f = 7,
     type_f = ascii ''application/pdf'', handle = 3\<rparr>"

definition file_D :: File where
  "file_D = \<lparr>name = ascii ''D.pdf'', lastModified = 1700000000003, size_f = 512,
     type_f = ascii ''application/pdf'', handle = 4\<rparr>"

definition storage_ok :: storage where
  "storage_ok = \<lparr>item = None, setItem_throws = False, removeItem_throws = False\<rparr>"

text \<open>A store that throws on every access (storage disabled in the browser).\<close>

definition storage_blocked :: storage where
  "storage_blocked = \<lparr>item = None, setItem_throws = True, removeItem_throws = True\<rparr>"

definition page_returning :: "jsstring \<Rightarrow> page_calls" where
  "page_returning t = \<lparr>getPage_rejects = None, context_null = False, render_rejects = None,
     generateContent = Inr t\<rparr>"

text \<open>Every file has two pages, recognised as Hello and World.\<close>

definition world_hello :: world where
  "world_hello = (\<lambda>f. \<lparr>arrayBuffer_rejects = None,
     getDocument = Inr \<lparr>numPages = 2,
       page_calls_at = (\<lambda>i. if i = 1 then page_returning (ascii ''Hello'')
                              else page_returning (ascii ''World''))\<rparr>\<rparr>)"

text \<open>As before, but the document of the file B.pdf cannot be read.\<close>

definition world_B_fails :: world where
  "world_B_fails = (\<lambda>f. if f = file_B
     then \<lparr>arrayBuffer_rejects = None, getDocument = Inl (ErrorObject (ascii ''Invalid PDF structure.''))\<rparr>
     else world_hello f)"

text \<open>As \<open>world_hello\<close>, but the document of the copy of A.pdf cannot be read.\<close>

definition world_copy_fails :: world where
  "world_copy_fails = (\<lambda>f. if f = file_A_copy
     then \<lparr>arrayBuffer_rejects = None, getDocument = Inl (ErrorObject (ascii ''Invalid PDF structure.''))\<rparr>
     else world_hello f)"

text \<open>A.pdf and its copy added to the empty queue in one selection.\<close>

definition same_id_pair :: app where
  "same_id_pair = handleFiles (Some [file_A, file_A_copy]) (initial storage_ok)"


text \<open>Three files added to the empty queue in one selection.\<close>

definition three_files :: app where
  "three_files = handleFiles (Some [file_A, file_B, file_C]) (initial storage_ok)"

text \<open>A queue after a run: two records in success, one in error between them.\<close>

definition exported_example :: app where
  "exported_example = (initial storage_ok)\<lparr>fileQueue :=
     [(newFileStatus file_A)\<lparr>status := Success, extractedText := Some (ascii ''Hello'')\<rparr>,
      (newFileStatus file_B)\<lparr>status := Error\<rparr>,
      (newFileStatus file_C)\<lparr>status := Success, extractedText := Some (ascii ''World'')\<rparr>],
     batchState := BatchDone\<rparr>"

text \<open>One file processed, the queue cleared, the same file added again.\<close>

definition after_first_batch :: app where
  "after_first_batch = runBatch world_hello (handleFiles (Some [file_A]) (initial storage_ok))"

definition second_queue :: app where
  "second_queue = handleFiles (Some [file_A]) (resetState after_first_batch)"

section \<open>Properties of the history store\<close>

lemma foldl_Set_add_set: "set (foldl Set_add acc xs) = set acc \<union> set xs"
  by (induction xs arbitrary: acc) (auto simp: Set_add_def)

lemma foldl_Set_add_distinct: "distinct acc \<Longrightarrow> distinct (foldl Set_add acc xs)"
  by (induction xs arbitrary: acc) (auto simp: Set_add_def)

lemma foldl_Set_add_subset: "set xs \<subseteq> set acc \<Longrightarrow> foldl Set_add acc xs = acc"
  by (induction xs arbitrary: acc) (auto simp: Set_add_def)

lemma foldl_Set_add_fixed: "distinct acc \<Longrightarrow> foldl Set_add [] acc = acc"
  by (induction acc rule: rev_induct) (auto simp: Set_add_def)

lemma Array_from_Set_set: "set (Array_from_Set xs) = set xs"
  by (simp add: Array_from_Set_def foldl_Set_add_set)

lemma Array_from_Set_distinct: "distinct (Array_from_Set xs)"
  by (simp add: Array_from_Set_def foldl_Set_add_distinct)

lemma Array_from_Set_absorb:
  "distinct h \<Longrightarrow> set ns \<subseteq> set h \<Longrightarrow> Array_from_Set (h @ ns) = h"
  by (simp add: Array_from_Set_def foldl_Set_add_fixed foldl_Set_add_subset)

lemma history_updateHistory: "history (updateHistory ns s) = Array_from_Set (history s @ ns)"
  by (simp add: updateHistory_def Let_def)

lemma count_list_distinct: "distinct xs \<Longrightarrow> x \<in> set xs \<Longrightarrow> count_list xs x = 1"
  by (induction xs) auto

text \<open>
  The merge of \<^verbatim>\<open>updateHistory\<close> reaches the state cell whether or not the write to the
  store throws: the \<^verbatim>\<open>try\<close> block holds the write alone.
\<close>

lemma updateHistory_despite_setItem_failure:
  "setItem_throws (localStorage s) \<Longrightarrow>
     history (updateHistory ns s) = Array_from_Set (history s @ ns) \<and>
     localStorage (updateHistory ns s) = localStorage s"
  by (simp add: updateHistory_def Let_def)

text \<open>
  Claim C8 (a failure of the store never blocks the in-memory operation, for add and for
  clear).  It holds for add (\<open>updateHistory_despite_setItem_failure\<close>) and fails for clear:
  with one name in the history and a store whose \<^verbatim>\<open>removeItem\<close> throws,
  \<^verbatim>\<open>clearHistory\<close> logs the failure and leaves the history as it was, because
  \<^verbatim>\<open>setHistory([])\<close> comes after the removal inside the same \<^verbatim>\<open>try\<close> block.
\<close>

theorem clearHistory_blocked_by_removeItem_failure:
  "history (clearHistory ((initial storage_blocked)\<lparr>history := [ascii ''A.pdf'']\<rparr>)) =
     [ascii ''A.pdf''] \<and>
   console (clearHistory ((initial storage_blocked)\<lparr>history := [ascii ''A.pdf'']\<rparr>)) =
     [ascii ''Failed to clear history from localStorage:'']"
  by (simp add: clearHistory_def initial_def storage_blocked_def Let_def)

section \<open>Properties of the queue operations\<close>

text \<open>
  Claim C3 (two files with the same name, time stamp and size give one record, in the same
  selection event or in different ones).  \<^verbatim>\<open>handleFiles\<close> filters the new records against
  the ids already in the queue only, not against each other: one selection holding two
  such files puts two records with the same id into the empty queue.
\<close>

theorem handleFiles_same_event_duplicates:
  "fileQueue (handleFiles (Some [file_A, file_A_copy]) (initial storage_ok)) =
     [newFileStatus file_A, newFileStatus file_A_copy] \<and>
   id_fs (newFileStatus file_A) = id_fs (newFileStatus file_A_copy) \<and>
   file_A \<noteq> file_A_copy"
  by (simp add: handleFiles_def initial_def newFileStatus_def file_A_def file_A_copy_def Let_def)

text \<open>Across selection events the filter does its work: ids stay pairwise distinct.\<close>

lemma handleFiles_distinct:
  assumes "distinct (map id_fs (fileQueue s))"
    and "distinct (map (id_fs \<circ> newFileStatus) (filter (\<lambda>f. type_f f = ascii ''application/pdf'') fl))"
  shows "distinct (map id_fs (fileQueue (handleFiles (Some fl) s)))"
  using assms by (auto simp: handleFiles_def Let_def distinct_map_filter) (metis imageI)

section \<open>Running effects, and the start button\<close>

lemma run_Nil: "run [] s = s"
  by (simp add: run_def)

lemma run_append: "run (xs @ ys) s = run ys (run xs s)"
  by (simp add: run_def)

lemma run_Cons: "run (x # xs) s = run xs (apply_effect x s)"
  by (simp add: run_def)

text \<open>
  The body of \<^verbatim>\<open>processBatch\<close> has one guard of its own: it returns at once when no
  record is pending.  It does not read the batch state.
\<close>

lemma processBatch_own_guard:
  "(processBatch w q = []) = (\<not> list_ex (\<lambda>f. status f = Pending) q)"
  by (simp add: processBatch_def case_prod_beta Let_def)

text \<open>
  Claim C6 (while the batch state is processing, the start command is rejected: no state
  change, no second pass).  The command is the start button, and the rejection is its
  \<^verbatim>\<open>disabled\<close> attribute: while the batch state is processing a click produces no
  effect at all, so no call is made and no cell is written.
\<close>

theorem start_rejected_while_processing:
  "batchState s = BatchProcessing \<Longrightarrow> clickStartButton w s = [] \<and> startBatch w s = s"
  by (simp add: clickStartButton_def startBatch_def startButton_disabled_def run_def)

theorem start_rejected_while_processing_witness:
  "batchState ((handleFiles (Some [file_A]) (initial storage_ok))\<lparr>batchState := BatchProcessing\<rparr>)
     = BatchProcessing \<and>
   hasPendingFiles ((handleFiles (Some [file_A]) (initial storage_ok))\<lparr>batchState := BatchProcessing\<rparr>) \<and>
   clickStartButton world_hello
     ((handleFiles (Some [file_A]) (initial storage_ok))\<lparr>batchState := BatchProcessing\<rparr>) = [] \<and>
   startBatch world_hello
     ((handleFiles (Some [file_A]) (initial storage_ok))\<lparr>batchState := BatchProcessing\<rparr>) =
   (handleFiles (Some [file_A]) (initial storage_ok))\<lparr>batchState := BatchProcessing\<rparr>"
  using start_rejected_while_processing
    [of "(handleFiles (Some [file_A]) (initial storage_ok))\<lparr>batchState := BatchProcessing\<rparr>" world_hello]
  by (simp add: handleFiles_def initial_def hasPendingFiles_def newFileStatus_def file_A_def Let_def)

section \<open>The local queue after the loops\<close>

lemma mapItem_comp:
  "(\<And>x. id_fs (v x) = id_fs x) \<Longrightarrow> mapItem i u (mapItem i v q) = mapItem i (\<lambda>x. u (v x)) q"
  by (induction q) (auto simp: mapItem_def)

lemma mapItem_ids: "(\<And>x. id_fs (u x) = id_fs x) \<Longrightarrow> map id_fs (mapItem i u q) = map id_fs q"
  by (induction q) (auto simp: mapItem_def)

lemma mapItem_single:
  assumes "distinct (map id_fs q)" and "fs \<in> set q"
  shows "mapItem (id_fs fs) u q = map (\<lambda>x. if x = fs then u fs else x) q"
proof -
  have "inj_on id_fs (set q)" using assms(1) by (simp add: distinct_map)
  then have "\<And>x. x \<in> set q \<Longrightarrow> (id_fs x = id_fs fs) = (x = fs)"
    using assms(2) by (auto dest: inj_onD)
  then show ?thesis by (auto simp: mapItem_def)
qed

lemma pageLoop_snd:
  "snd (pageLoop fs pdf js pq ft) =
     ((case lastPage (file_fs fs) pdf js of
         None \<Rightarrow> pq
       | Some j \<Rightarrow> mapItem (id_fs fs) (setProgress j (numPages pdf)) pq),
      pagesOutcome (file_fs fs) pdf js ft)"
proof (induction js arbitrary: pq ft)
  case Nil
  then show ?case by simp
next
  case (Cons i js)
  have collapse: "\<And>j q. mapItem (id_fs fs) (setProgress j (numPages pdf))
       (mapItem (id_fs fs) (setProgress i (numPages pdf)) q) =
       mapItem (id_fs fs) (setProgress j (numPages pdf)) q"
    by (simp add: mapItem_comp setProgress_def [abs_def])
  show ?case
    using Cons.IH collapse
    by (simp add: Let_def case_prod_beta setProgress_def [abs_def] split: sum.splits option.splits)
qed


lemma tryBlock_snd:
  "snd (tryBlock w fs pq) =
     ((case fileProgress w (file_fs fs) of
         None \<Rightarrow> pq
       | Some p \<Rightarrow> mapItem (id_fs fs) (setProgress (current p) (total p)) pq),
      fileResult w (file_fs fs))"
  by (simp add: tryBlock_def fileProgress_def fileResult_def Let_def case_prod_beta pageLoop_snd
      split: option.splits sum.splits)

lemma progress_eta: "\<lparr>current = current p, total = total p\<rparr> = p"
  by (cases p) simp

lemma processFile_snd:
  "snd (processFile w fs (mapItem (id_fs fs)
          (\<lambda>item1. item1\<lparr>status := Processing, message := msg_starting\<rparr>) pq)) =
     mapItem (id_fs fs) (finishAs w (file_fs fs)) pq"
  by (simp add: processFile_def Let_def case_prod_beta tryBlock_snd finishAs_def [abs_def]
       mapItem_comp setProgress_def progress_eta split: sum.splits option.splits)

lemma id_fs_finishAs: "id_fs (finishAs w f x) = id_fs x"
  by (simp add: finishAs_def Let_def split: sum.splits option.splits)

lemma status_finishAs: "status (finishAs w f x) \<noteq> Pending"
  by (simp add: finishAs_def Let_def split: sum.splits option.splits)

lemma fileLoop_snd:
  assumes "distinct (map id_fs pq)" and "distinct (map id_fs rest)"
    and "\<forall>x \<in> set rest. status x = Pending \<longrightarrow> x \<in> set pq"
  shows "snd (fileLoop w rest pq) =
           map (\<lambda>x. if x \<in> set rest \<and> status x = Pending then finish w x else x) pq"
  using assms
proof (induction rest arbitrary: pq)
  case Nil
  then show ?case by simp
next
  case (Cons fs rest)
  show ?case
  proof (cases "status fs = Pending")
    case False
    have "snd (fileLoop w rest pq) =
           map (\<lambda>x. if x \<in> set rest \<and> status x = Pending then finish w x else x) pq"
      using Cons.prems by (intro Cons.IH) auto
    also have "\<dots> = map (\<lambda>x. if x \<in> set (fs # rest) \<and> status x = Pending then finish w x else x) pq"
      using False by (intro map_cong) auto
    finally show ?thesis using False by simp
  next
    case True
    let ?pq2 = "mapItem (id_fs fs) (finishAs w (file_fs fs)) pq"
    have fs_in: "fs \<in> set pq" using Cons.prems True by simp
    have pq2: "?pq2 = map (\<lambda>x. if x = fs then finish w fs else x) pq"
      using Cons.prems(1) fs_in by (simp add: mapItem_single finish_def)
    have ids2: "map id_fs ?pq2 = map id_fs pq"
      by (simp add: mapItem_ids id_fs_finishAs)
    have others: "\<forall>x \<in> set rest. status x = Pending \<longrightarrow> x \<in> set ?pq2"
    proof (intro ballI impI)
      fix x assume x: "x \<in> set rest" "status x = Pending"
      then have "x \<in> set pq" using Cons.prems(3) by simp
      moreover have "x \<noteq> fs" using x(1) Cons.prems(2) by auto
      ultimately show "x \<in> set ?pq2" unfolding pq2 by (auto simp: image_iff)
    qed
    have step: "snd (fileLoop w (fs # rest) pq) = snd (fileLoop w rest ?pq2)"
      using True by (simp add: Let_def case_prod_beta processFile_snd)
    have "snd (fileLoop w rest ?pq2) =
            map (\<lambda>x. if x \<in> set rest \<and> status x = Pending then finish w x else x) ?pq2"
      using Cons.prems ids2 others by (intro Cons.IH) auto
    also have "\<dots> = map (\<lambda>x. if x \<in> set (fs # rest) \<and> status x = Pending then finish w x else x) pq"
      unfolding pq2 using True by (auto simp: finish_def status_finishAs)
    finally show ?thesis using step by simp
  qed
qed

lemma fileLoop_final:
  assumes "distinct (map id_fs q)"
  shows "snd (fileLoop w q q) = map (\<lambda>x. if status x = Pending then finish w x else x) q"
  using fileLoop_snd [OF assms assms, of w] by (simp cong: map_cong)

section \<open>The effects of the loops\<close>

lemma queues_simps [simp]:
  "queues [] = []"
  "queues (xs @ ys) = queues xs @ queues ys"
  "queues (SetFileQueue q # xs) = q # queues xs"
  "queues (SetBatchState b # xs) = queues xs"
  "queues (SetActiveAccordion a # xs) = queues xs"
  "queues (CallUpdateHistory ns # xs) = queues xs"
  "queues (ConsoleError m # xs) = queues xs"
  "queues (CallArrayBuffer f # xs) = queues xs"
  "queues (CallGetDocument f # xs) = queues xs"
  "queues (CallGetPage f i # xs) = queues xs"
  "queues (CallRender f i # xs) = queues xs"
  "queues (CallGenerateContent f i # xs) = queues xs"
  by (simp_all add: queues_def)

lemma opened_files_simps [simp]:
  "opened_files [] = []"
  "opened_files (xs @ ys) = opened_files xs @ opened_files ys"
  "opened_files (SetFileQueue q # xs) = opened_files xs"
  "opened_files (SetBatchState b # xs) = opened_files xs"
  "opened_files (SetActiveAccordion a # xs) = opened_files xs"
  "opened_files (CallUpdateHistory ns # xs) = opened_files xs"
  "opened_files (ConsoleError m # xs) = opened_files xs"
  "opened_files (CallArrayBuffer f # xs) = f # opened_files xs"
  "opened_files (CallGetDocument f # xs) = opened_files xs"
  "opened_files (CallGetPage f i # xs) = opened_files xs"
  "opened_files (CallRender f i # xs) = opened_files xs"
  "opened_files (CallGenerateContent f i # xs) = opened_files xs"
  by (simp_all add: opened_files_def)

lemma cell_writes_simps [simp]:
  "cell_writes [] = []"
  "cell_writes (xs @ ys) = cell_writes xs @ cell_writes ys"
  "cell_writes (SetFileQueue q # xs) = cell_writes xs"
  "cell_writes (SetBatchState b # xs) = SetBatchState b # cell_writes xs"
  "cell_writes (SetActiveAccordion a # xs) = SetActiveAccordion a # cell_writes xs"
  "cell_writes (CallUpdateHistory ns # xs) = CallUpdateHistory ns # cell_writes xs"
  "cell_writes (ConsoleError m # xs) = cell_writes xs"
  "cell_writes (CallArrayBuffer f # xs) = cell_writes xs"
  "cell_writes (CallGetDocument f # xs) = cell_writes xs"
  "cell_writes (CallGetPage f i # xs) = cell_writes xs"
  "cell_writes (CallRender f i # xs) = cell_writes xs"
  "cell_writes (CallGenerateContent f i # xs) = cell_writes xs"
  by (simp_all add: cell_writes_def)

text \<open>Effects of the page level.\<close>

lemma pageBody_effects:
  "queues (fst (pageBody f i pc)) = [] \<and> opened_files (fst (pageBody f i pc)) = [] \<and>
   cell_writes (fst (pageBody f i pc)) = []"
  by (simp add: pageBody_def extractTextFromImage_def case_prod_beta
      split: option.splits sum.splits)

lemma pageLoop_effects:
  "opened_files (fst (pageLoop fs pdf js pq ft)) = [] \<and>
   cell_writes (fst (pageLoop fs pdf js pq ft)) = []"
  by (induction js arbitrary: pq ft)
     (simp_all add: Let_def case_prod_beta pageBody_effects split: sum.splits)

lemma tryBlock_effects:
  "opened_files (fst (tryBlock w fs pq)) = [file_fs fs] \<and>
   cell_writes (fst (tryBlock w fs pq)) = []"
  by (simp add: tryBlock_def Let_def case_prod_beta pageLoop_effects split: option.splits sum.splits)

lemma processFile_effects:
  "opened_files (fst (processFile w fs pq)) = [file_fs fs] \<and>
   cell_writes (fst (processFile w fs pq)) = [] \<and>
   queues (fst (processFile w fs pq)) \<noteq> [] \<and>
   last (queues (fst (processFile w fs pq))) = snd (processFile w fs pq)"
  by (simp add: processFile_def Let_def case_prod_beta tryBlock_effects split: sum.splits)

lemma fileLoop_effects:
  "opened_files (fst (fileLoop w rest pq)) = map file_fs (filter (\<lambda>r. status r = Pending) rest) \<and>
   cell_writes (fst (fileLoop w rest pq)) = [] \<and>
   last (pq # queues (fst (fileLoop w rest pq))) = snd (fileLoop w rest pq)"
proof (induction rest arbitrary: pq)
  case Nil
  then show ?case by simp
next
  case (Cons fs rest)
  show ?case
  proof (cases "status fs = Pending")
    case False
    then show ?thesis using Cons.IH [of pq] by simp
  next
    case True
    let ?pq1 = "mapItem (id_fs fs) (\<lambda>item1. item1\<lparr>status := Processing, message := msg_starting\<rparr>) pq"
    let ?pf = "processFile w fs ?pq1"
    let ?fl = "fileLoop w rest (snd ?pf)"
    have unfold: "fileLoop w (fs # rest) pq = (SetFileQueue ?pq1 # fst ?pf @ fst ?fl, snd ?fl)"
      using True by (simp add: Let_def case_prod_beta)
    have pf: "opened_files (fst ?pf) = [file_fs fs]" "cell_writes (fst ?pf) = []"
      "queues (fst ?pf) \<noteq> []" "last (queues (fst ?pf)) = snd ?pf"
      using processFile_effects [of w fs ?pq1] by simp_all
    have ih: "opened_files (fst ?fl) = map file_fs (filter (\<lambda>r. status r = Pending) rest)"
      "cell_writes (fst ?fl) = []" "last (snd ?pf # queues (fst ?fl)) = snd ?fl"
      using Cons.IH [of "snd ?pf"] by simp_all
    have "last (pq # ?pq1 # queues (fst ?pf) @ queues (fst ?fl)) = snd ?fl"
      using pf(3,4) ih(3) by (cases "queues (fst ?fl) = []") simp_all
    then show ?thesis
      unfolding unfold using True pf ih by simp
  qed
qed


lemma fileQueue_updateHistory: "fileQueue (updateHistory ns s) = fileQueue s"
  by (simp add: updateHistory_def Let_def)

lemma fileQueue_run: "fileQueue (run effs s) = last (fileQueue s # queues effs)"
proof (induction effs arbitrary: s)
  case Nil
  then show ?case by (simp add: run_Nil)
next
  case (Cons e effs)
  show ?case
    by (cases e) (simp_all add: run_Cons Cons.IH fileQueue_updateHistory)
qed

lemma run_no_cell_writes:
  "cell_writes effs = [] \<Longrightarrow>
     batchState (run effs s) = batchState s \<and> history (run effs s) = history s \<and>
     localStorage (run effs s) = localStorage s \<and> activeAccordion (run effs s) = activeAccordion s \<and>
     copiedFileId (run effs s) = copiedFileId s"
proof (induction effs arbitrary: s)
  case Nil
  then show ?case by (simp add: run_Nil)
next
  case (Cons e effs)
  then show ?case
    by (cases e) (simp_all add: run_Cons)
qed

lemma runBatch_idle: "\<not> list_ex (\<lambda>f. status f = Pending) (fileQueue s) \<Longrightarrow> runBatch w s = s"
  by (simp add: runBatch_def processBatch_def run_Nil)

lemma fileLoop_nothing_pending:
  "\<not> list_ex (\<lambda>f. status f = Pending) rest \<Longrightarrow> fileLoop w rest pq = ([], pq)"
  by (induction rest) simp_all

lemma fileQueue_runBatch:
  "fileQueue (runBatch w s) = snd (fileLoop w (fileQueue s) (fileQueue s))"
proof (cases "list_ex (\<lambda>f. status f = Pending) (fileQueue s)")
  case True
  have "last (fileQueue s # queues (fst (fileLoop w (fileQueue s) (fileQueue s)))) =
          snd (fileLoop w (fileQueue s) (fileQueue s))"
    using fileLoop_effects [of w "fileQueue s" "fileQueue s"] by blast
  then show ?thesis
    using True
    by (auto simp: runBatch_def processBatch_def fileQueue_run case_prod_beta Let_def
        split: if_splits)
next
  case False
  then show ?thesis
    by (simp add: runBatch_idle fileLoop_nothing_pending)
qed

lemma batchState_runBatch:
  "list_ex (\<lambda>f. status f = Pending) (fileQueue s) \<Longrightarrow> batchState (runBatch w s) = BatchDone"
  by (simp add: runBatch_def processBatch_def case_prod_beta Let_def run_append run_Cons run_Nil)

lemma history_runBatch:
  assumes "list_ex (\<lambda>f. status f = Pending) (fileQueue s)"
  shows "history (runBatch w s) =
     (if filter (\<lambda>f. status f = Success) (fileQueue (runBatch w s)) = [] then history s
      else Array_from_Set (history s @
             map (\<lambda>f. name (file_fs f)) (filter (\<lambda>f. status f = Success) (fileQueue (runBatch w s)))))"
proof -
  let ?fl = "fileLoop w (fileQueue s) (fileQueue s)"
  have "cell_writes (fst ?fl) = []" using fileLoop_effects [of w "fileQueue s" "fileQueue s"] by simp
  then have "history (run (fst ?fl) s1) = history s1" for s1
    using run_no_cell_writes by blast
  then show ?thesis
    using assms
    by (simp add: fileQueue_runBatch)
       (simp add: runBatch_def processBatch_def case_prod_beta Let_def run_append run_Cons run_Nil
         history_updateHistory)
qed

section \<open>Success and failure of a file\<close>

lemma pageBody_succeeds: "page_succeeds pc \<Longrightarrow> \<exists>t. snd (pageBody f i pc) = Inr t"
  by (auto simp: page_succeeds_def pageBody_def extractTextFromImage_def split: sum.splits)

lemma pagesOutcome_succeeds:
  "list_all (\<lambda>i. page_succeeds (page_calls_at pdf i)) js \<Longrightarrow> \<exists>t. pagesOutcome f pdf js ft = Inr t"
proof (induction js arbitrary: ft)
  case Nil
  then show ?case by simp
next
  case (Cons i js)
  then obtain t where "snd (pageBody f i (page_calls_at pdf i)) = Inr t"
    using pageBody_succeeds [of "page_calls_at pdf i" f i] by auto
  then show ?case using Cons by simp
qed

lemma fileResult_succeeds: "all_calls_succeed w f \<Longrightarrow> \<exists>t. fileResult w f = Inr t"
  by (auto simp: all_calls_succeed_def fileResult_def pagesOutcome_succeeds
      split: option.splits sum.splits)

lemma status_finish_succeeds: "all_calls_succeed w (file_fs x) \<Longrightarrow> status (finish w x) = Success"
  using fileResult_succeeds [of w "file_fs x"]
  by (auto simp: finish_def finishAs_def Let_def split: option.splits)

lemma finish_fails:
  "fileResult w (file_fs x) = Inl e \<Longrightarrow>
     status (finish w x) = Error \<and> message (finish w x) = errorMessage e \<and>
     extractedText (finish w x) = extractedText x"
  by (auto simp: finish_def finishAs_def Let_def split: option.splits)

lemma id_fs_finish: "id_fs (finish w x) = id_fs x"
  by (simp add: finish_def id_fs_finishAs)

lemma fileQueue_runBatch_distinct:
  "distinct (map id_fs (fileQueue s)) \<Longrightarrow>
     fileQueue (runBatch w s) =
       map (\<lambda>x. if status x = Pending then finish w x else x) (fileQueue s)"
  by (simp add: fileQueue_runBatch fileLoop_final)

lemma opened_files_processBatch:
  "opened_files (processBatch w q) = map file_fs (filter (\<lambda>r. status r = Pending) q)"
proof (cases "list_ex (\<lambda>f. status f = Pending) q")
  case True
  then show ?thesis
    using fileLoop_effects [of w q q]
    by (simp add: processBatch_def case_prod_beta Let_def)
next
  case False
  then have "filter (\<lambda>r. status r = Pending) q = []"
    by (auto simp: list_ex_iff filter_empty_conv)
  then show ?thesis using False by (simp add: processBatch_def)
qed

section \<open>The run of a batch\<close>

lemmas example_defs = file_A_def file_B_def file_C_def file_A_copy_def storage_ok_def
  storage_blocked_def page_returning_def world_hello_def world_B_fails_def three_files_def
  handleFiles_def initial_def newFileStatus_def Number_toString_def digits.simps ascii_def
  Let_def

lemma fileQueue_handleFiles_subset:
  "set (fileQueue (handleFiles (Some fl) s)) \<subseteq> set (fileQueue s) \<union> newFileStatus ` set fl"
  by (auto simp: handleFiles_def Let_def)

lemma fileQueue_run_interrupted:
  "set (fileQueue (run_interrupted effs n (Some fl) s)) \<subseteq>
     set (fileQueue (run effs s)) \<union> newFileStatus ` set fl"
proof -
  have "queues effs = queues (take n effs @ drop n effs)" by simp
  then have split: "queues effs = queues (take n effs) @ queues (drop n effs)"
    by (simp del: append_take_drop_id)
  show ?thesis
  proof (cases "queues (drop n effs) = []")
    case True
    then have same: "fileQueue (run effs s) = fileQueue (run (take n effs) s)"
      using split by (simp add: fileQueue_run)
    have "fileQueue (run_interrupted effs n (Some fl) s) =
        fileQueue (handleFiles (Some fl) (run (take n effs) s))"
      using True by (simp add: run_interrupted_def fileQueue_run)
    then show ?thesis
      using fileQueue_handleFiles_subset [of fl "run (take n effs) s"] same by simp
  next
    case False
    then have "last (queues effs) = last (queues (drop n effs))" "queues effs \<noteq> []"
      using split by simp_all
    then have "fileQueue (run_interrupted effs n (Some fl) s) = fileQueue (run effs s)"
      using False by (simp add: run_interrupted_def fileQueue_run)
    then show ?thesis by simp
  qed
qed

text \<open>
  Claim C4 (the records are visited in the order of the queue, those that are not pending
  are skipped, and the records to visit are fixed when the loop begins: records added
  during the run are not processed in that pass).  The first call made for a record is
  \<^verbatim>\<open>file.arrayBuffer()\<close>: the files opened during a run are the files of the pending
  records of the array that \<^verbatim>\<open>processBatch\<close> captured, in the order of that array.  The
  effects are a function of that array and of the external calls alone.  When files are
  added after any number of effects, every record of the queue at the end is a record of
  the uninterrupted run or a new record as \<^verbatim>\<open>handleFiles\<close> made it, still pending.
\<close>

theorem processBatch_opens_pending_in_order:
  "opened_files (processBatch w (fileQueue s)) =
     map file_fs (filter (\<lambda>r. status r = Pending) (fileQueue s)) \<and>
   set (fileQueue (run_interrupted (processBatch w (fileQueue s)) n (Some fl) s)) \<subseteq>
     set (fileQueue (runBatch w s)) \<union> newFileStatus ` set fl"
  using fileQueue_run_interrupted [of "processBatch w (fileQueue s)" n fl s]
  by (simp add: opened_files_processBatch runBatch_def)

theorem processBatch_opens_pending_in_order_witness:
  "opened_files (processBatch world_hello (fileQueue
     ((initial storage_ok)\<lparr>fileQueue := [(newFileStatus file_C)\<lparr>status := Error\<rparr>, newFileStatus file_A,
      (newFileStatus file_C)\<lparr>status := Success\<rparr>, newFileStatus file_B]\<rparr>))) = [file_A, file_B] \<and>
   set (fileQueue (run_interrupted (processBatch world_hello (fileQueue three_files)) 5
       (Some [file_D]) three_files)) \<subseteq>
     set (fileQueue (runBatch world_hello three_files)) \<union> {newFileStatus file_D}"
  using processBatch_opens_pending_in_order [of world_hello
     "(initial storage_ok)\<lparr>fileQueue := [(newFileStatus file_C)\<lparr>status := Error\<rparr>, newFileStatus file_A,
      (newFileStatus file_C)\<lparr>status := Success\<rparr>, newFileStatus file_B]\<rparr>"]
    processBatch_opens_pending_in_order [of world_hello three_files 5 "[file_D]"]
  by (simp add: newFileStatus_def initial_def)

lemma filter_distinct_key:
  "distinct (map f xs) \<Longrightarrow> x \<in> set xs \<Longrightarrow> filter (\<lambda>y. f y = f x) xs = [x]"
proof (induction xs)
  case Nil
  then show ?case by simp
next
  case (Cons a xs)
  show ?case
  proof (cases "a = x")
    case True
    then have "\<forall>y \<in> set xs. f y \<noteq> f x" using Cons.prems(1) by (auto simp: image_iff)
    then have "filter (\<lambda>y. f y = f x) xs = []" by (simp add: filter_empty_conv)
    then show ?thesis using True by simp
  next
    case False
    then have "x \<in> set xs" using Cons.prems(2) by simp
    moreover have "f a \<noteq> f x" using Cons.prems(1) calculation by (auto simp: image_iff)
    ultimately show ?thesis using Cons by simp
  qed
qed

text \<open>
  Isolation on a queue that has one record per id: \<open>bad\<close> is the pending record whose
  \<^verbatim>\<open>try\<close> block ends with the thrown value \<open>e\<close>, and all calls made for the other
  pending records succeed.  The ids keep their places, \<open>bad\<close> ends in error, the other
  pending records end in success, the one record with the id of \<open>bad\<close> carries the
  message of \<open>e\<close>, every pending file was opened, and the batch state is done.
\<close>

lemma isolation_with_distinct_ids:
  assumes "distinct (map id_fs (fileQueue s))"
    and "bad \<in> set (fileQueue s)" and "status bad = Pending"
    and "fileResult w (file_fs bad) = Inl e"
    and "\<forall>r \<in> set (fileQueue s). status r = Pending \<and> r \<noteq> bad \<longrightarrow> all_calls_succeed w (file_fs r)"
  shows "map id_fs (fileQueue (runBatch w s)) = map id_fs (fileQueue s) \<and>
         map status (fileQueue (runBatch w s)) =
           map (\<lambda>r. if status r = Pending then (if r = bad then Error else Success) else status r)
             (fileQueue s) \<and>
         map message (filter (\<lambda>r'. id_fs r' = id_fs bad) (fileQueue (runBatch w s))) =
           [errorMessage e] \<and>
         opened_files (processBatch w (fileQueue s)) =
           map file_fs (filter (\<lambda>r. status r = Pending) (fileQueue s)) \<and>
         batchState (runBatch w s) = BatchDone"
proof -
  let ?q = "fileQueue s"
  let ?F = "\<lambda>x. if status x = Pending then finish w x else x"
  have final: "fileQueue (runBatch w s) = map ?F ?q"
    using assms(1) by (rule fileQueue_runBatch_distinct)
  have ids: "map id_fs (fileQueue (runBatch w s)) = map id_fs ?q"
    unfolding final by (simp add: id_fs_finish)
  have stat: "map status (fileQueue (runBatch w s)) =
           map (\<lambda>r. if status r = Pending then (if r = bad then Error else Success) else status r) ?q"
    unfolding final using assms(4,5) by (auto simp: finish_fails status_finish_succeeds)
  have "filter (\<lambda>r'. id_fs r' = id_fs bad) (map ?F ?q) = map ?F (filter (\<lambda>x. id_fs x = id_fs bad) ?q)"
    by (simp add: filter_map comp_def id_fs_finish cong: filter_cong)
  moreover have "filter (\<lambda>x. id_fs x = id_fs bad) ?q = [bad]"
    using assms(1,2) by (rule filter_distinct_key)
  ultimately have msg: "map message (filter (\<lambda>r'. id_fs r' = id_fs bad) (fileQueue (runBatch w s))) =
           [errorMessage e]"
    unfolding final using assms(3,4) by (simp add: finish_fails)
  have pend: "list_ex (\<lambda>f. status f = Pending) ?q"
    using assms(2,3) by (auto simp: list_ex_iff)
  show ?thesis
    using ids stat msg pend by (simp add: opened_files_processBatch batchState_runBatch)
qed


lemma isolation_with_distinct_ids_example:
  "distinct (map id_fs (fileQueue three_files)) \<and>
   newFileStatus file_B \<in> set (fileQueue three_files) \<and>
   status (newFileStatus file_B) = Pending \<and>
   fileResult world_B_fails file_B = Inl (ErrorObject (ascii ''Invalid PDF structure.'')) \<and>
   all_calls_succeed world_B_fails file_A \<and> all_calls_succeed world_B_fails file_C \<and>
   map status (fileQueue (runBatch world_B_fails three_files)) = [Success, Error, Success] \<and>
   map message (filter (\<lambda>r'. id_fs r' = id_fs (newFileStatus file_B))
       (fileQueue (runBatch world_B_fails three_files))) = [ascii ''Invalid PDF structure.''] \<and>
   opened_files (processBatch world_B_fails (fileQueue three_files)) = [file_A, file_B, file_C] \<and>
   batchState (runBatch world_B_fails three_files) = BatchDone"
  using isolation_with_distinct_ids [of three_files "newFileStatus file_B" world_B_fails
      "ErrorObject (ascii ''Invalid PDF structure.'')"]
  by (simp add: example_defs fileResult_def all_calls_succeed_def page_succeeds_def
      errorMessage_def upt_rec)

text \<open>
  Claim C2 (for every queue of N files with one failing file: its record ends in error
  with the message of the error, every other eligible record ends in success, the loop
  goes on after the failure and the batch state reaches done).  It fails on the queue
  that one selection of A.pdf and its copy gives: the two records carry the same id, and
  every update of \<^verbatim>\<open>processBatch\<close> is made by id, so it reaches both.  All calls for
  A.pdf succeed and the document of the copy cannot be read; at the end both records are
  in error with the message of that failure.  The batch state still reaches done.
\<close>

theorem failure_spreads_to_same_id:
  "fileQueue same_id_pair = [newFileStatus file_A, newFileStatus file_A_copy] \<and>
   all_calls_succeed world_copy_fails file_A \<and>
   fileResult world_copy_fails file_A_copy = Inl (ErrorObject (ascii ''Invalid PDF structure.'')) \<and>
   map file_fs (fileQueue (runBatch world_copy_fails same_id_pair)) = [file_A, file_A_copy] \<and>
   map status (fileQueue (runBatch world_copy_fails same_id_pair)) = [Error, Error] \<and>
   map message (fileQueue (runBatch world_copy_fails same_id_pair)) =
     [ascii ''Invalid PDF structure.'', ascii ''Invalid PDF structure.''] \<and>
   batchState (runBatch world_copy_fails same_id_pair) = BatchDone"
  by (simp add: same_id_pair_def world_copy_fails_def all_calls_succeed_def page_succeeds_def
      fileResult_def runBatch_def processBatch_def processFile_def tryBlock_def pageBody_def
      extractTextFromImage_def mapItem_def run_def upt_rec trim_def isWhiteSpace_def
      page_separator_def errorMessage_def updateHistory_def Array_from_Set_def Set_add_def
      example_defs)

text \<open>
  Claim C1 (two pages recognised as Hello and World give the stored text
  \<^verbatim>\<open>Hello\n\n---\n\nWorld\<close> and status success).  The loop appends the separator after
  every page, the last one included, and the final \<^verbatim>\<open>trim\<close> removes white space only:
  the two line breaks at the end go, the three dashes stay.  The stored text is
  \<^verbatim>\<open>Hello\n\n---\n\nWorld\n\n---\<close>; the status is success, and the progress of the last
  page stays in the record.
\<close>

theorem two_pages_hello_world:
  assumes "distinct (map id_fs (fileQueue s))"
    and "k < length (fileQueue s)" and "status (fileQueue s ! k) = Pending"
    and "arrayBuffer_rejects (w (file_fs (fileQueue s ! k))) = None"
    and "getDocument (w (file_fs (fileQueue s ! k))) = Inr pdf" and "numPages pdf = 2"
    and "page_succeeds (page_calls_at pdf 1)"
    and "generateContent (page_calls_at pdf 1) = Inr (ascii ''Hello'')"
    and "page_succeeds (page_calls_at pdf 2)"
    and "generateContent (page_calls_at pdf 2) = Inr (ascii ''World'')"
  shows "fileQueue (runBatch w s) ! k =
           (fileQueue s ! k)\<lparr>status := Success,
              extractedText := Some (ascii ''Hello'' @ [0xA, 0xA] @ ascii ''---'' @ [0xA, 0xA] @ ascii ''World'' @ [0xA, 0xA] @ ascii ''---''),
              message := msg_completed, pageProgress := Some \<lparr>current = 2, total = 2\<rparr>\<rparr>"
proof -
  let ?x = "fileQueue s ! k"
  have body1: "snd (pageBody (file_fs ?x) 1 (page_calls_at pdf 1)) = Inr (ascii ''Hello'')"
    using assms(7,8) by (simp add: page_succeeds_def pageBody_def extractTextFromImage_def)
  have body2: "snd (pageBody (file_fs ?x) 2 (page_calls_at pdf 2)) = Inr (ascii ''World'')"
    using assms(9,10) by (simp add: page_succeeds_def pageBody_def extractTextFromImage_def)
  have pages: "[Suc 0 ..< Suc (numPages pdf)] = [Suc 0, 2]"
    using assms(6) by (simp add: upt_rec)
  have out: "pagesOutcome (file_fs ?x) pdf [Suc 0 ..< Suc (numPages pdf)] [] =
      Inr (trim (ascii ''Hello'') @ page_separator @ trim (ascii ''World'') @ page_separator)"
    unfolding pages using body1 body2 by simp
  have lastp: "lastPage (file_fs ?x) pdf [Suc 0 ..< Suc (numPages pdf)] = Some 2"
    unfolding pages using body1 body2 by simp
  have res: "fileResult w (file_fs ?x) =
      Inr (trim (ascii ''Hello'') @ page_separator @ trim (ascii ''World'') @ page_separator)"
    using assms(4,5) out by (simp add: fileResult_def del: upt_Suc)
  have prog: "fileProgress w (file_fs ?x) = Some \<lparr>current = 2, total = 2\<rparr>"
    using assms(4,5) lastp by (simp add: fileProgress_def assms(6) del: upt_Suc)
  have trimmed: "trim (trim (ascii ''Hello'') @ page_separator @ trim (ascii ''World'') @ page_separator) =
      ascii ''Hello'' @ [0xA, 0xA] @ ascii ''---'' @ [0xA, 0xA] @ ascii ''World'' @ [0xA, 0xA] @ ascii ''---''"
    by (simp add: trim_def isWhiteSpace_def page_separator_def ascii_def)
  have "fileQueue (runBatch w s) ! k = finish w ?x"
    using assms(1,2,3) by (simp add: fileQueue_runBatch_distinct)
  then show ?thesis
    by (simp add: finish_def finishAs_def res prog trimmed)
qed

theorem two_pages_hello_world_witness:
  "distinct (map id_fs (fileQueue (handleFiles (Some [file_A]) (initial storage_ok)))) \<and>
   status (fileQueue (handleFiles (Some [file_A]) (initial storage_ok)) ! 0) = Pending \<and>
   fileQueue (runBatch world_hello (handleFiles (Some [file_A]) (initial storage_ok))) =
     [\<lparr>id_fs = ascii ''A.pdf-1700000000000-1234'', file_fs = file_A, status = Success,
       message = msg_completed,
       extractedText = Some (ascii ''Hello'' @ [0xA, 0xA] @ ascii ''---'' @ [0xA, 0xA] @ ascii ''World'' @ [0xA, 0xA] @ ascii ''---''),
       pageProgress = Some \<lparr>current = 2, total = 2\<rparr>\<rparr>]"
proof -
  let ?s = "handleFiles (Some [file_A]) (initial storage_ok)"
  have len: "length (fileQueue (runBatch world_hello ?s)) = 1"
    by (simp add: fileQueue_runBatch_distinct example_defs)
  have "fileQueue (runBatch world_hello ?s) ! 0 =
     \<lparr>id_fs = ascii ''A.pdf-1700000000000-1234'', file_fs = file_A, status = Success,
       message = msg_completed,
       extractedText = Some (ascii ''Hello'' @ [0xA, 0xA] @ ascii ''---'' @ [0xA, 0xA] @ ascii ''World'' @ [0xA, 0xA] @ ascii ''---''),
       pageProgress = Some \<lparr>current = 2, total = 2\<rparr>\<rparr>"
    using two_pages_hello_world [of ?s 0 world_hello
        "\<lparr>numPages = 2, page_calls_at = (\<lambda>i. if i = 1 then page_returning (ascii ''Hello'')
                              else page_returning (ascii ''World''))\<rparr>"]
    by (simp add: example_defs page_succeeds_def)
  then show ?thesis
    using len by (cases "fileQueue (runBatch world_hello ?s)") (simp_all add: example_defs)
qed


text \<open>
  The claim as stated fails for the file \<^verbatim>\<open>A.pdf\<close> alone in the queue: the record ends
  in success, with a text that is not \<^verbatim>\<open>Hello\n\n---\n\nWorld\<close>.
\<close>

theorem two_pages_not_joined:
  "status (fileQueue (runBatch world_hello (handleFiles (Some [file_A]) (initial storage_ok))) ! 0) = Success \<and>
   extractedText (fileQueue (runBatch world_hello (handleFiles (Some [file_A]) (initial storage_ok))) ! 0) \<noteq>
     Some (ascii ''Hello'' @ [0xA, 0xA] @ ascii ''---'' @ [0xA, 0xA] @ ascii ''World'')"
  by (simp add: runBatch_def processBatch_def processFile_def tryBlock_def pageBody_def
      extractTextFromImage_def mapItem_def run_def upt_rec trim_def isWhiteSpace_def
      page_separator_def updateHistory_def Array_from_Set_def Set_add_def example_defs)

section \<open>Recognition calls and queues written\<close>







lemma pageLoop_queues:
  "q' \<in> set (queues (fst (pageLoop fs pdf js pq ft))) \<Longrightarrow>
     \<exists>j \<in> set js. q' = mapItem (id_fs fs) (setProgress j (numPages pdf)) pq"
proof (induction js arbitrary: pq ft)
  case Nil
  then show ?case by simp
next
  case (Cons i js)
  have collapse: "\<And>j q. mapItem (id_fs fs) (setProgress j (numPages pdf))
       (mapItem (id_fs fs) (setProgress i (numPages pdf)) q) =
       mapItem (id_fs fs) (setProgress j (numPages pdf)) q"
    by (simp add: mapItem_comp setProgress_def [abs_def])
  let ?pq1 = "mapItem (id_fs fs) (setProgress i (numPages pdf)) pq"
  from Cons.prems
  consider "q' = ?pq1"
    | t where "q' \<in> set (queues (fst (pageLoop fs pdf js ?pq1 t)))"
    by (auto simp: Let_def case_prod_beta pageBody_effects setProgress_def [abs_def]
        split: sum.splits)
  then show ?case
  proof cases
    case 1
    then show ?thesis by auto
  next
    case 2
    then obtain j where "j \<in> set js" "q' = mapItem (id_fs fs) (setProgress j (numPages pdf)) ?pq1"
      using Cons.IH by blast
    then show ?thesis using collapse by auto
  qed
qed


lemma tryBlock_queues:
  assumes "q' \<in> set (queues (fst (tryBlock w fs pq)))"
  shows "\<exists>pdf j. arrayBuffer_rejects (w (file_fs fs)) = None \<and> getDocument (w (file_fs fs)) = Inr pdf \<and>
       1 \<le> j \<and> j \<le> numPages pdf \<and> q' = mapItem (id_fs fs) (setProgress j (numPages pdf)) pq"
proof (cases "arrayBuffer_rejects (w (file_fs fs))")
  case (Some e)
  then show ?thesis using assms by (simp add: tryBlock_def Let_def)
next
  case None
  show ?thesis
  proof (cases "getDocument (w (file_fs fs))")
    case (Inl e)
    then show ?thesis using assms None by (simp add: tryBlock_def Let_def)
  next
    case (Inr pdf)
    then have "q' \<in> set (queues (fst (pageLoop fs pdf [1 ..< Suc (numPages pdf)] pq [])))"
      using assms None by (simp add: tryBlock_def Let_def case_prod_beta del: upt_Suc)
    then obtain j where "j \<in> set [1 ..< Suc (numPages pdf)]"
      "q' = mapItem (id_fs fs) (setProgress j (numPages pdf)) pq"
      using pageLoop_queues by blast
    then show ?thesis using None Inr by auto
  qed
qed

lemma processFile_queues_split:
  "queues (fst (processFile w fs pq)) = queues (fst (tryBlock w fs pq)) @ [snd (processFile w fs pq)]"
  by (simp add: processFile_def Let_def case_prod_beta split: sum.splits)

lemma processFile_queues:
  assumes "q' \<in> set (queues (fst (processFile w fs (mapItem (id_fs fs) started pq))))"
  shows "q' = mapItem (id_fs fs) (finishAs w (file_fs fs)) pq \<or>
     (\<exists>pdf j. arrayBuffer_rejects (w (file_fs fs)) = None \<and> getDocument (w (file_fs fs)) = Inr pdf \<and>
        1 \<le> j \<and> j \<le> numPages pdf \<and>
        q' = mapItem (id_fs fs) (\<lambda>x. setProgress j (numPages pdf) (started x)) pq)"
proof -
  have snd: "snd (processFile w fs (mapItem (id_fs fs) started pq)) =
      mapItem (id_fs fs) (finishAs w (file_fs fs)) pq"
    using processFile_snd [of w fs pq] by (simp add: started_def [abs_def])
  from assms consider "q' = snd (processFile w fs (mapItem (id_fs fs) started pq))"
    | "q' \<in> set (queues (fst (tryBlock w fs (mapItem (id_fs fs) started pq))))"
    by (auto simp: processFile_queues_split)
  then show ?thesis
  proof cases
    case 1
    then show ?thesis using snd by simp
  next
    case 2
    then obtain pdf j where *: "arrayBuffer_rejects (w (file_fs fs)) = None"
      "getDocument (w (file_fs fs)) = Inr pdf" "1 \<le> j" "j \<le> numPages pdf"
      "q' = mapItem (id_fs fs) (setProgress j (numPages pdf)) (mapItem (id_fs fs) started pq)"
      using tryBlock_queues by blast
    have "q' = mapItem (id_fs fs) (\<lambda>x. setProgress j (numPages pdf) (started x)) pq"
      unfolding *(5) by (rule mapItem_comp) (simp add: started_def)
    then show ?thesis using * by blast
  qed
qed

lemma fileLoop_queues:
  assumes "distinct (map id_fs pq)" and "distinct (map id_fs rest)"
    and "\<forall>x \<in> set rest. status x = Pending \<longrightarrow> x \<in> set pq"
    and "q' \<in> set (queues (fst (fileLoop w rest pq)))"
  shows "list_all2 (\<lambda>x y. y = x \<or> (x \<in> set rest \<and> status x = Pending \<and> stage_of w x y)) pq q'"
  using assms
proof (induction rest arbitrary: pq)
  case Nil
  then show ?case by simp
next
  case (Cons fs rest)
  let ?R = "\<lambda>rs x y. y = x \<or> (x \<in> set rs \<and> status x = Pending \<and> stage_of w x y)"
  show ?case
  proof (cases "status fs = Pending")
    case False
    have "list_all2 (?R rest) pq q'"
      using Cons.prems False by (intro Cons.IH) auto
    then show ?thesis
      by (rule list_all2_mono) auto
  next
    case True
    let ?pq1 = "mapItem (id_fs fs) started pq"
    let ?pq2 = "mapItem (id_fs fs) (finishAs w (file_fs fs)) pq"
    have fs_in: "fs \<in> set pq" using Cons.prems True by simp
    have single: "\<And>u. mapItem (id_fs fs) u pq = map (\<lambda>x. if x = fs then u fs else x) pq"
      using Cons.prems(1) fs_in by (rule mapItem_single)
    have as_map: "list_all2 (?R (fs # rest)) pq (map (\<lambda>x. if x = fs then y else x) pq)"
      if "stage_of w fs y" for y
      using that True by (simp add: list_all2_map2 list_all2_same)
    have snd_pf: "snd (processFile w fs ?pq1) = ?pq2"
      using processFile_snd [of w fs pq] by (simp add: started_def [abs_def])
    have unfold: "queues (fst (fileLoop w (fs # rest) pq)) =
        ?pq1 # queues (fst (processFile w fs ?pq1)) @ queues (fst (fileLoop w rest ?pq2))"
      using True snd_pf by (simp add: Let_def case_prod_beta started_def [abs_def])
    have pq2: "?pq2 = map (\<lambda>x. if x = fs then finish w fs else x) pq"
      by (simp add: single finish_def)
    from Cons.prems(4) consider "q' = ?pq1" | "q' \<in> set (queues (fst (processFile w fs ?pq1)))"
      | "q' \<in> set (queues (fst (fileLoop w rest ?pq2)))"
      unfolding unfold by auto
    then show ?thesis
    proof cases
      case 1
      show ?thesis unfolding 1 single by (rule as_map) (simp add: stage_of_def)
    next
      case 2
      then consider "q' = ?pq2"
        | pdf j where "arrayBuffer_rejects (w (file_fs fs)) = None"
          "getDocument (w (file_fs fs)) = Inr pdf" "1 \<le> j" "j \<le> numPages pdf"
          "q' = mapItem (id_fs fs) (\<lambda>x. setProgress j (numPages pdf) (started x)) pq"
        using processFile_queues by blast
      then show ?thesis
      proof cases
        case 1
        show ?thesis unfolding 1 pq2 by (rule as_map) (simp add: stage_of_def)
      next
        case 2
        then have "stage_of w fs (setProgress j (numPages pdf) (started fs))"
          by (auto simp: stage_of_def)
        then show ?thesis unfolding 2(5) single by (rule as_map)
      qed
    next
      case 3
      have ids2: "map id_fs ?pq2 = map id_fs pq"
        by (simp add: mapItem_ids id_fs_finishAs)
      have others: "\<forall>x \<in> set rest. status x = Pending \<longrightarrow> x \<in> set ?pq2"
      proof (intro ballI impI)
        fix x assume x: "x \<in> set rest" "status x = Pending"
        then have "x \<in> set pq" using Cons.prems(3) by simp
        moreover have "x \<noteq> fs" using x(1) Cons.prems(2) by auto
        ultimately show "x \<in> set ?pq2" unfolding pq2 by (auto simp: image_iff)
      qed
      have "list_all2 (?R rest) ?pq2 q'"
        using Cons.prems(1,2) ids2 others 3 by (intro Cons.IH) auto
      then have "list_all2 (\<lambda>x y. ?R rest (if x = fs then finish w fs else x) y) pq q'"
        unfolding pq2 by (simp add: list_all2_map1)
      then show ?thesis
      proof (rule list_all2_mono)
        fix x y assume "?R rest (if x = fs then finish w fs else x) y"
        then show "?R (fs # rest) x y"
          using True by (auto simp: stage_of_def finish_def status_finishAs split: if_splits)
      qed
    qed
  qed
qed



lemma processBatch_queues:
  assumes "distinct (map id_fs q)" and "q' \<in> set (queues (processBatch w q))"
  shows "list_all2 (\<lambda>x y. y = x \<or> (status x = Pending \<and> stage_of w x y)) q q'"
proof -
  have "q' \<in> set (queues (fst (fileLoop w q q)))"
    using assms(2) by (auto simp: processBatch_def Let_def case_prod_beta split: if_splits)
  then have "list_all2 (\<lambda>x y. y = x \<or> (x \<in> set q \<and> status x = Pending \<and> stage_of w x y)) q q'"
    using assms(1) by (intro fileLoop_queues) auto
  then show ?thesis by (rule list_all2_mono) auto
qed




section \<open>Properties of the export\<close>

lemma Array_join_Cons: "Array_join sep (x # xs) = x @ concat (map (\<lambda>y. sep @ y) xs)"
  by (induction xs arbitrary: x) simp_all

lemma handleExportAll_history: "fst (handleExportAll (s\<lparr>history := h\<rparr>)) = fst (handleExportAll s)"
  by (simp add: handleExportAll_def Let_def)

text \<open>
  Claim C9 (export does nothing when no record is in success; otherwise the output is the
  records in success, in queue order, each as a block of START line, text and END line,
  the blocks separated by blank lines; exporting twice gives the same bytes).  The first
  block stands alone and every later one follows three line breaks; a block is written
  out for a record that has a text; \<^verbatim>\<open>handleExportAll\<close> leaves the state as it is, so a
  second export returns what the first did.
\<close>

theorem export_output:
  "(filter (\<lambda>f. status f = Success) (fileQueue s) = [] \<longrightarrow> handleExportAll s = (None, s)) \<and>
   (filter (\<lambda>f. status f = Success) (fileQueue s) = r # rs \<longrightarrow>
      handleExportAll s =
        (Some \<lparr>filename = ascii ''pdf_extraction_results.txt'',
               content = export_block r @ concat (map (\<lambda>x. [0xA, 0xA, 0xA] @ export_block x) rs)\<rparr>, s)) \<and>
   (extractedText x = Some t \<longrightarrow>
      export_block x =
        ascii ''========== START: '' @ name (file_fs x) @ ascii '' =========='' @ [0xA, 0xA] @
        t @ [0xA, 0xA] @
        ascii ''========== END: '' @ name (file_fs x) @ ascii '' =========='') \<and>
   handleExportAll (snd (handleExportAll s)) = handleExportAll s"
proof (intro conjI impI)
  assume "filter (\<lambda>f. status f = Success) (fileQueue s) = []"
  then show "handleExportAll s = (None, s)"
    by (simp add: handleExportAll_def)
next
  assume "filter (\<lambda>f. status f = Success) (fileQueue s) = r # rs"
  then show "handleExportAll s =
        (Some \<lparr>filename = ascii ''pdf_extraction_results.txt'',
               content = export_block r @ concat (map (\<lambda>x. [0xA, 0xA, 0xA] @ export_block x) rs)\<rparr>, s)"
    by (simp add: handleExportAll_def Array_join_Cons comp_def)
next
  assume "extractedText x = Some t"
  then show "export_block x =
        ascii ''========== START: '' @ name (file_fs x) @ ascii '' =========='' @ [0xA, 0xA] @
        t @ [0xA, 0xA] @
        ascii ''========== END: '' @ name (file_fs x) @ ascii '' =========='' "
    by (simp add: export_block_def template_value_def)
next
  show "handleExportAll (snd (handleExportAll s)) = handleExportAll s"
    by (simp add: handleExportAll_def Let_def)
qed

theorem export_output_witness:
  "filter (\<lambda>f. status f = Success) (fileQueue exported_example) =
     [(newFileStatus file_A)\<lparr>status := Success, extractedText := Some (ascii ''Hello'')\<rparr>,
      (newFileStatus file_C)\<lparr>status := Success, extractedText := Some (ascii ''World'')\<rparr>] \<and>
   handleExportAll exported_example =
     (Some \<lparr>filename = ascii ''pdf_extraction_results.txt'',
        content =
          ascii ''========== START: A.pdf =========='' @ [0xA, 0xA] @ ascii ''Hello'' @ [0xA, 0xA] @
          ascii ''========== END: A.pdf =========='' @ [0xA, 0xA, 0xA] @
          ascii ''========== START: C.pdf =========='' @ [0xA, 0xA] @ ascii ''World'' @ [0xA, 0xA] @
          ascii ''========== END: C.pdf ==========''\<rparr>, exported_example) \<and>
   handleExportAll (snd (handleExportAll exported_example)) = handleExportAll exported_example \<and>
   handleExportAll (initial storage_ok) = (None, initial storage_ok)"
  using export_output [of exported_example
      "(newFileStatus file_A)\<lparr>status := Success, extractedText := Some (ascii ''Hello'')\<rparr>"
      "[(newFileStatus file_C)\<lparr>status := Success, extractedText := Some (ascii ''World'')\<rparr>]"
      "(newFileStatus file_A)\<lparr>status := Success, extractedText := Some (ascii ''Hello'')\<rparr>"
      "ascii ''Hello''"]
    export_output [of "initial storage_ok"]
  by (simp add: exported_example_def export_block_def template_value_def example_defs)

section \<open>History after a batch\<close>

lemma startBatch_cases: "startBatch w s = (if startButton_disabled s then s else runBatch w s)"
  by (simp add: startBatch_def clickStartButton_def runBatch_def run_Nil)

lemma history_distinct_after_batch:
  assumes "list_ex (\<lambda>f. status f = Pending) (fileQueue s)"
    and "r \<in> set (fileQueue (runBatch w s))" and "status r = Success"
  shows "count_list (history (runBatch w s)) (name (file_fs r)) = 1"
proof -
  let ?succ = "filter (\<lambda>f. status f = Success) (fileQueue (runBatch w s))"
  have in_succ: "r \<in> set ?succ" using assms(2,3) by simp
  then have "?succ \<noteq> []" by (auto simp: filter_empty_conv)
  then have h: "history (runBatch w s) =
      Array_from_Set (history s @ map (\<lambda>f. name (file_fs f)) ?succ)"
    using history_runBatch [OF assms(1), of w] by simp
  have "name (file_fs r) \<in> set (history (runBatch w s))"
    unfolding h Array_from_Set_set using in_succ by auto
  moreover have "distinct (history (runBatch w s))"
    unfolding h by (rule Array_from_Set_distinct)
  ultimately show ?thesis by (simp add: count_list_distinct)
qed

text \<open>
  Claim C7 (the history is a set: \<^verbatim>\<open>updateHistory\<close> removes duplicates, a name processed
  in two batches is there once, adding a name that is present changes nothing, and the
  history has no effect on the export).  After \<^verbatim>\<open>updateHistory\<close> the history has no
  duplicates and holds the old names and the new ones; adding names that are all present
  to a history without duplicates returns it unchanged, and adding the same names twice
  is adding them once; after a batch, the name of every record in success is in the
  history exactly once, whatever the history was before; the export reads the queue only.
\<close>

theorem history_set_semantics:
  "distinct (history (updateHistory ns s)) \<and>
   set (history (updateHistory ns s)) = set (history s) \<union> set ns \<and>
   (distinct (history s) \<and> set ns \<subseteq> set (history s) \<longrightarrow> history (updateHistory ns s) = history s) \<and>
   history (updateHistory ns (updateHistory ns s)) = history (updateHistory ns s) \<and>
   (hasPendingFiles s \<and> r \<in> set (fileQueue (runBatch w s)) \<and> status r = Success \<longrightarrow>
      count_list (history (runBatch w s)) (name (file_fs r)) = 1) \<and>
   fst (handleExportAll (s\<lparr>history := h\<rparr>)) = fst (handleExportAll s)"
proof (intro conjI impI)
  show "distinct (history (updateHistory ns s))"
    by (simp add: history_updateHistory Array_from_Set_distinct)
  show "set (history (updateHistory ns s)) = set (history s) \<union> set ns"
    by (simp add: history_updateHistory Array_from_Set_set)
  show "history (updateHistory ns (updateHistory ns s)) = history (updateHistory ns s)"
    by (simp add: history_updateHistory Array_from_Set_absorb Array_from_Set_distinct
        Array_from_Set_set)
  show "fst (handleExportAll (s\<lparr>history := h\<rparr>)) = fst (handleExportAll s)"
    by (rule handleExportAll_history)
next
  assume "distinct (history s) \<and> set ns \<subseteq> set (history s)"
  then show "history (updateHistory ns s) = history s"
    by (simp add: history_updateHistory Array_from_Set_absorb)
next
  assume "hasPendingFiles s \<and> r \<in> set (fileQueue (runBatch w s)) \<and> status r = Success"
  then show "count_list (history (runBatch w s)) (name (file_fs r)) = 1"
    by (simp add: hasPendingFiles_def history_distinct_after_batch)
qed


lemma second_queue_fileQueue: "fileQueue second_queue = [newFileStatus file_A]"
  by (simp add: second_queue_def handleFiles_def resetState_def Let_def file_A_def ascii_def)

lemma all_calls_succeed_world_hello: "all_calls_succeed world_hello f"
  by (simp add: all_calls_succeed_def world_hello_def page_succeeds_def page_returning_def
      list_all_iff)

theorem history_set_semantics_witness:
  "distinct [ascii ''A.pdf''] \<and> set [ascii ''A.pdf''] \<subseteq> set [ascii ''A.pdf''] \<and>
   history (updateHistory [ascii ''A.pdf''] ((initial storage_ok)\<lparr>history := [ascii ''A.pdf'']\<rparr>)) =
     [ascii ''A.pdf''] \<and>
   count_list (history after_first_batch) (ascii ''A.pdf'') = 1 \<and>
   hasPendingFiles second_queue \<and>
   status (finish world_hello (newFileStatus file_A)) = Success \<and>
   finish world_hello (newFileStatus file_A) \<in> set (fileQueue (runBatch world_hello second_queue)) \<and>
   count_list (history (runBatch world_hello second_queue)) (ascii ''A.pdf'') = 1"
proof -
  have q: "fileQueue second_queue = [newFileStatus file_A]"
    by (rule second_queue_fileQueue)
  have pend: "hasPendingFiles second_queue"
    by (simp add: hasPendingFiles_def q newFileStatus_def)
  have succ: "status (finish world_hello (newFileStatus file_A)) = Success"
    by (rule status_finish_succeeds) (rule all_calls_succeed_world_hello)
  have final: "fileQueue (runBatch world_hello second_queue) = [finish world_hello (newFileStatus file_A)]"
    by (simp add: fileQueue_runBatch_distinct q) (simp add: newFileStatus_def)
  have q1: "fileQueue (handleFiles (Some [file_A]) (initial storage_ok)) = [newFileStatus file_A]"
    by (simp add: handleFiles_def initial_def Let_def file_A_def ascii_def)
  have pend1: "hasPendingFiles (handleFiles (Some [file_A]) (initial storage_ok))"
    by (simp add: hasPendingFiles_def q1 newFileStatus_def)
  have final1: "fileQueue after_first_batch = [finish world_hello (newFileStatus file_A)]"
    unfolding after_first_batch_def
    by (simp add: fileQueue_runBatch_distinct q1) (simp add: newFileStatus_def)
  have nm: "name (file_fs (finish world_hello (newFileStatus file_A))) = ascii ''A.pdf''"
    by (simp add: finish_def finishAs_def Let_def newFileStatus_def file_A_def
        split: option.splits sum.splits)
  have c1: "history (updateHistory [ascii ''A.pdf''] ((initial storage_ok)\<lparr>history := [ascii ''A.pdf'']\<rparr>)) =
     [ascii ''A.pdf'']"
    using history_set_semantics [of "[ascii ''A.pdf'']"
        "(initial storage_ok)\<lparr>history := [ascii ''A.pdf'']\<rparr>"]
    by (simp add: initial_def)
  have c2: "count_list (history (runBatch world_hello second_queue)) (ascii ''A.pdf'') = 1"
    using history_set_semantics [of "[]" second_queue
        "finish world_hello (newFileStatus file_A)" world_hello] pend succ final nm
    by simp
  have "count_list (history (runBatch world_hello (handleFiles (Some [file_A]) (initial storage_ok))))
      (ascii ''A.pdf'') = 1"
    using history_set_semantics [of "[]" "handleFiles (Some [file_A]) (initial storage_ok)"
        "finish world_hello (newFileStatus file_A)" world_hello]
      pend1 succ final1 [unfolded after_first_batch_def] nm
    by simp
  then have c3: "count_list (history after_first_batch) (ascii ''A.pdf'') = 1"
    by (simp add: after_first_batch_def)
  show ?thesis
    using c1 c2 c3 pend succ final by simp
qed

section \<open>Optional fields and status\<close>

lemma fields_ok_finish: "fields_ok x \<Longrightarrow> status x = Pending \<Longrightarrow> fields_ok (finish w x)"
  by (auto simp: fields_ok_def finish_def finishAs_def Let_def split: option.splits sum.splits)

lemma status_finish: "status (finish w x) \<noteq> Processing"
  by (auto simp: finish_def finishAs_def Let_def split: option.splits sum.splits)

lemma fields_ok_stage: "fields_ok x \<Longrightarrow> status x = Pending \<Longrightarrow> stage_of w x y \<Longrightarrow> fields_ok y"
  unfolding stage_of_def
  using fields_ok_finish [of x w]
  by (auto simp: fields_ok_def started_def setProgress_def)

lemma queue_ok_runBatch:
  assumes "queue_ok (fileQueue s)"
  shows "queue_ok (fileQueue (runBatch w s))"
proof -
  have d: "distinct (map id_fs (fileQueue s))" using assms by (simp add: queue_ok_def)
  have final: "fileQueue (runBatch w s) =
      map (\<lambda>x. if status x = Pending then finish w x else x) (fileQueue s)"
    using d by (rule fileQueue_runBatch_distinct)
  have "map id_fs (fileQueue (runBatch w s)) = map id_fs (fileQueue s)"
    unfolding final by (simp add: id_fs_finish)
  moreover have "\<forall>r \<in> set (fileQueue (runBatch w s)). fields_ok r \<and> status r \<noteq> Processing"
    unfolding final using assms
    by (auto simp: queue_ok_def fields_ok_finish status_finish)
  ultimately show ?thesis using d by (simp add: queue_ok_def)
qed

lemma queue_ok_exec:
  assumes "queue_ok (fileQueue s)" and "single_ids c"
  shows "queue_ok (fileQueue (exec c s))"
proof (cases c)
  case (AddFiles files)
  show ?thesis
  proof (cases files)
    case None
    then show ?thesis using assms AddFiles by (simp add: handleFiles_def)
  next
    case (Some fl)
    have "distinct (map id_fs (fileQueue (handleFiles (Some fl) s)))"
      using assms AddFiles Some by (intro handleFiles_distinct) (simp_all add: queue_ok_def single_ids_def)
    moreover have "\<forall>r \<in> set (fileQueue (handleFiles (Some fl) s)). fields_ok r \<and> status r \<noteq> Processing"
      using assms(1) by (auto simp: handleFiles_def Let_def queue_ok_def fields_ok_def newFileStatus_def)
    ultimately show ?thesis using AddFiles Some by (simp add: queue_ok_def)
  qed
next
  case (RemoveFile i)
  then show ?thesis using assms(1) by (auto simp: removeFile_def queue_ok_def distinct_map_filter)
next
  case (StartBatch w)
  then show ?thesis using assms(1) queue_ok_runBatch [of s w] by (simp add: startBatch_cases)
next
  case Reset
  then show ?thesis by (simp add: resetState_def queue_ok_def)
next
  case ClearHistory
  then show ?thesis using assms(1) by (simp add: clearHistory_def Let_def)
next
  case ExportAll
  then show ?thesis using assms(1) by (simp add: handleExportAll_def Let_def)
qed

lemma queue_ok_fold:
  "queue_ok (fileQueue s) \<Longrightarrow> \<forall>c \<in> set cs. single_ids c \<Longrightarrow> queue_ok (fileQueue (fold exec cs s))"
  by (induction cs arbitrary: s) (simp_all add: queue_ok_exec)

lemma fields_ok_written:
  assumes "queue_ok q" and "q' \<in> set (queues (processBatch w q))" and "r \<in> set q'"
  shows "fields_ok r"
proof -
  have "list_all2 (\<lambda>x y. y = x \<or> (status x = Pending \<and> stage_of w x y)) q q'"
    using assms(1,2) by (intro processBatch_queues) (simp add: queue_ok_def)
  then have all2: "list_all2 (\<lambda>x y. y = x \<or> (status x = Pending \<and> stage_of w x y)) q q'"
    .
  obtain i where i: "i < length q'" "r = q' ! i"
    using assms(3) by (auto simp: in_set_conv_nth)
  have "length q = length q'" using all2 by (rule list_all2_lengthD)
  then have "q ! i \<in> set q" using i(1) by simp
  moreover have "r = q ! i \<or> (status (q ! i) = Pending \<and> stage_of w (q ! i) r)"
    using list_all2_nthD2 [OF all2 i(1)] i(2) by simp
  ultimately show ?thesis
    using assms(1) by (auto simp: queue_ok_def fields_ok_stage)
qed

text \<open>
  Claim C5 (page progress is present only while the status is processing, the text only
  when it is success; records in success and error carry no page progress).  The part on
  the text holds; the part on page progress does not: no update of the record removes the
  field, so it stays on the record after the last page.  What holds, from the empty queue
  and for every sequence of commands whose selection events give pairwise different ids:
  at rest no record is processing, a text is present only in success, and a page progress
  is present only on records that are not pending; the same holds for every record of
  every queue written during a run started then.
\<close>

theorem field_invariant:
  assumes "\<forall>c \<in> set cs. single_ids c"
  shows "(\<forall>r \<in> set (fileQueue (fold exec cs (initial st))). fields_ok r \<and> status r \<noteq> Processing) \<and>
         (\<forall>q' \<in> set (queues (clickStartButton w (fold exec cs (initial st)))). \<forall>r \<in> set q'. fields_ok r)"
proof -
  have ok: "queue_ok (fileQueue (fold exec cs (initial st)))"
    using assms by (intro queue_ok_fold) (simp_all add: queue_ok_def initial_def)
  then have first: "\<forall>r \<in> set (fileQueue (fold exec cs (initial st))). fields_ok r \<and> status r \<noteq> Processing"
    by (simp add: queue_ok_def)
  have second: "\<forall>q' \<in> set (queues (clickStartButton w (fold exec cs (initial st)))). \<forall>r \<in> set q'. fields_ok r"
    using ok by (auto simp: clickStartButton_def dest: fields_ok_written)
  show ?thesis using first second by simp
qed


lemma finish_world_hello:
  "finish world_hello (newFileStatus file_A) =
     (newFileStatus file_A)\<lparr>status := Success,
        extractedText := Some (ascii ''Hello'' @ [0xA, 0xA] @ ascii ''---'' @ [0xA, 0xA] @ ascii ''World'' @ [0xA, 0xA] @ ascii ''---''),
        message := msg_completed, pageProgress := Some \<lparr>current = 2, total = 2\<rparr>\<rparr>"
  by (simp add: finish_def finishAs_def fileResult_def fileProgress_def world_hello_def
      page_returning_def pageBody_def extractTextFromImage_def upt_rec trim_def isWhiteSpace_def
      page_separator_def newFileStatus_def ascii_def Let_def)

lemma first_batch_queue:
  "fileQueue (runBatch world_hello (handleFiles (Some [file_A]) (initial storage_ok))) =
     [finish world_hello (newFileStatus file_A)]"
proof -
  have q1: "fileQueue (handleFiles (Some [file_A]) (initial storage_ok)) = [newFileStatus file_A]"
    by (simp add: handleFiles_def initial_def Let_def file_A_def ascii_def)
  show ?thesis
    by (simp add: fileQueue_runBatch_distinct q1) (simp add: newFileStatus_def)
qed

text \<open>
  The claim as stated fails after one file of two pages has been processed: the record is
  in success and carries the progress of its last page.
\<close>

theorem pageProgress_stays_after_success:
  "status (fileQueue (runBatch world_hello (handleFiles (Some [file_A]) (initial storage_ok))) ! 0) =
     Success \<and>
   pageProgress (fileQueue (runBatch world_hello (handleFiles (Some [file_A]) (initial storage_ok))) ! 0) =
     Some \<lparr>current = 2, total = 2\<rparr>"
  by (simp add: first_batch_queue finish_world_hello)

theorem field_invariant_witness:
  "single_ids (AddFiles (Some [file_A])) \<and> single_ids (StartBatch world_hello) \<and>
   map status (fileQueue (fold exec [AddFiles (Some [file_A]), StartBatch world_hello]
     (initial storage_ok))) = [Success] \<and>
   list_all (\<lambda>r. fields_ok r \<and> status r \<noteq> Processing)
     (fileQueue (fold exec [AddFiles (Some [file_A]), StartBatch world_hello] (initial storage_ok))) \<and>
   list_all (list_all fields_ok)
     (queues (clickStartButton world_hello (fold exec [AddFiles (Some [file_A])] (initial storage_ok))))"
proof -
  have hyp: "single_ids (AddFiles (Some [file_A])) \<and> single_ids (StartBatch world_hello)"
    by (simp add: single_ids_def file_A_def ascii_def)
  have enabled: "\<not> startButton_disabled (handleFiles (Some [file_A]) (initial storage_ok))"
    by (simp add: startButton_disabled_def hasPendingFiles_def handleFiles_def initial_def
        newFileStatus_def file_A_def ascii_def Let_def)
  have st: "map status (fileQueue (fold exec [AddFiles (Some [file_A]), StartBatch world_hello]
     (initial storage_ok))) = [Success]"
    using enabled by (simp add: startBatch_cases first_batch_queue finish_world_hello)
  show ?thesis
    using field_invariant [of "[AddFiles (Some [file_A]), StartBatch world_hello]" storage_ok world_hello]
      field_invariant [of "[AddFiles (Some [file_A])]" storage_ok world_hello]
      hyp st
    by (simp add: list_all_iff)
qed

end
